theory Spec2Isabelle
  imports Complex_Main
begin

section \<open>Board model (GameState.js)\<close>

text \<open>
  The board is a JavaScript array of numbers. A cell is modelled as \<open>int option\<close>:
  \<open>Some n\<close> is the number \<open>n\<close>, and \<open>None\<close> stands for a value that is not a number
  (\<open>undefined\<close>, read from outside the array or from a hole, and \<open>NaN\<close>, which
  \<open>undefined++\<close> and \<open>undefined--\<close> produce). The program only compares cells with
  numbers and does arithmetic on them, and there \<open>undefined\<close> and \<open>NaN\<close> behave alike:
  every comparison is false and every arithmetic result is \<open>NaN\<close>.
\<close>

text \<open>
  Names follow the source. Where a name of the source is not available it is changed:
  the fields \<open>from\<close> and \<open>to\<close> of a move are \<open>mv_from\<close> and \<open>mv_to\<close>, the field
  \<open>value\<close> of the cube is \<open>cvalue\<close>, the fields \<open>player\<close> and \<open>dice\<close> of a turn
  record are \<open>t_player\<close> and \<open>t_dice\<close>, the fields \<open>_doubleOfferedBy\<close> and
  \<open>_currentTurn\<close> lose their underscore, the function \<open>winType\<close> of Rules.js is
  \<open>winTypeOf\<close>, and the two methods \<open>chooseSequence\<close> are \<open>greedyChooseSequence\<close> and
  \<open>randomChooseSequence\<close>. The players \<open>'white'\<close> and \<open>'black'\<close> are a datatype; the
  source takes every player that is not \<open>'white'\<close> for Black.
\<close>

datatype player = White | Black

type_synonym cell = "int option"
type_synonym board = "cell list"

record borneOff =
  white :: int
  black :: int

record move =
  mv_from :: int
  mv_to :: int
  die :: int
  isHit :: bool

definition WHITE_BAR :: int where "WHITE_BAR = 24"
definition BLACK_BAR :: int where "BLACK_BAR = 25"
definition BEAR_OFF :: int where "BEAR_OFF = 26"

text \<open>\<open>board[i]\<close>: outside \<open>0 .. length - 1\<close> the read yields \<open>undefined\<close>.\<close>

definition cellAt :: "board \<Rightarrow> int \<Rightarrow> cell" where
  "cellAt b i = (if 0 \<le> i \<and> nat i < length b then b ! nat i else None)"

text \<open>
  \<open>b[i] = v\<close>: inside the array the cell is replaced; at or beyond the length the array
  is extended, the cells in between being holes; a negative index stores a property
  beside the array, which \<open>applyMoveToBoard\<close> only ever sets to \<open>NaN\<close> and which
  therefore reads like the \<open>undefined\<close> it replaced.
\<close>

definition bset :: "board \<Rightarrow> int \<Rightarrow> cell \<Rightarrow> board" where
  "bset b i v =
     (if i < 0 then b
      else if nat i < length b then b[nat i := v]
      else b @ replicate (nat i - length b) None @ [v])"

text \<open>\<open>b[i]++\<close> and \<open>b[i]--\<close>.\<close>

definition inc :: "board \<Rightarrow> int \<Rightarrow> board" where
  "inc b i = bset b i (map_option (\<lambda>n. n + 1) (cellAt b i))"

definition dec :: "board \<Rightarrow> int \<Rightarrow> board" where
  "dec b i = bset b i (map_option (\<lambda>n. n - 1) (cellAt b i))"

text \<open>Comparisons of a cell with a number: false when the cell is not a number.\<close>

definition js_gt :: "cell \<Rightarrow> int \<Rightarrow> bool" where
  "js_gt c k = (case c of Some n \<Rightarrow> n > k | None \<Rightarrow> False)"

definition js_lt :: "cell \<Rightarrow> int \<Rightarrow> bool" where
  "js_lt c k = (case c of Some n \<Rightarrow> n < k | None \<Rightarrow> False)"

definition js_ge :: "cell \<Rightarrow> int \<Rightarrow> bool" where
  "js_ge c k = (case c of Some n \<Rightarrow> n \<ge> k | None \<Rightarrow> False)"

definition js_le :: "cell \<Rightarrow> int \<Rightarrow> bool" where
  "js_le c k = (case c of Some n \<Rightarrow> n \<le> k | None \<Rightarrow> False)"

definition js_eq :: "cell \<Rightarrow> int \<Rightarrow> bool" where
  "js_eq c k = (case c of Some n \<Rightarrow> n = k | None \<Rightarrow> False)"

text \<open>Arithmetic on numbers that may be \<open>NaN\<close>.\<close>

definition js_add :: "cell \<Rightarrow> cell \<Rightarrow> cell" where
  "js_add x y = (case (x, y) of (Some a, Some b) \<Rightarrow> Some (a + b) | _ \<Rightarrow> None)"

definition js_sub :: "cell \<Rightarrow> cell \<Rightarrow> cell" where
  "js_sub x y = (case (x, y) of (Some a, Some b) \<Rightarrow> Some (a - b) | _ \<Rightarrow> None)"

definition js_mul :: "cell \<Rightarrow> cell \<Rightarrow> cell" where
  "js_mul x y = (case (x, y) of (Some a, Some b) \<Rightarrow> Some (a * b) | _ \<Rightarrow> None)"

subsection \<open>Game state\<close>

datatype phase = Start | Rolling | Moving | Animating | Gameover | Doubling

datatype gameMode = VsAI | Hotseat

datatype winKind = Normal | Gammon | Backgammon

record cube =
  cvalue :: int
  owner :: "player option"

record turn =
  t_player :: player
  t_dice :: "int list"
  boardBefore :: board
  borneOffBefore :: borneOff
  cubeValue :: int
  moves :: "move list"

record snapshot =
  s_board :: board
  s_borneOff :: borneOff
  s_movesLeft :: "int list"
  s_madeMovesThisTurn :: "move list"
  s_allMoveSequences :: "move list list"
  s_selected :: "int option"
  s_validMoves :: "move list"

record GameState =
  board :: board
  borneOff :: borneOff
  currentPlayer :: player
  dice :: "int list"
  movesLeft :: "int list"
  phase :: phase
  selected :: "int option"
  validMoves :: "move list"
  allMoveSequences :: "move list list"
  madeMovesThisTurn :: "move list"
  gameMode :: gameMode
  score :: borneOff
  undoStack :: "snapshot list"
  winner :: "player option"
  winType :: winKind
  cube :: cube
  doubleOfferedBy :: "player option"
  turnHistory :: "turn list"
  currentTurn :: "turn option"

text \<open>\<open>new Array(26).fill(0)\<close>, and the state that the constructor builds.\<close>

definition emptyBoard :: board where
  "emptyBoard = replicate 26 (Some 0)"

definition newGameState :: GameState where
  "newGameState = \<lparr>
     board = emptyBoard,
     borneOff = \<lparr>white = 0, black = 0\<rparr>,
     currentPlayer = White,
     dice = [],
     movesLeft = [],
     phase = Start,
     selected = None,
     validMoves = [],
     allMoveSequences = [],
     madeMovesThisTurn = [],
     gameMode = VsAI,
     score = \<lparr>white = 0, black = 0\<rparr>,
     undoStack = [],
     winner = None,
     winType = Normal,
     cube = \<lparr>cvalue = 1, owner = None\<rparr>,
     doubleOfferedBy = None,
     turnHistory = [],
     currentTurn = None\<rparr>"

text \<open>\<open>initializeBoard\<close>: a fresh board with the eight assignments, and the resets.\<close>

definition initialBoard :: board where
  "initialBoard =
     bset (bset (bset (bset (bset (bset (bset (bset emptyBoard
       23 (Some 2)) 12 (Some 5)) 7 (Some 3)) 5 (Some 5))
       0 (Some (- 2))) 11 (Some (- 5))) 16 (Some (- 3))) 18 (Some (- 5))"

definition initializeBoard :: "GameState \<Rightarrow> GameState" where
  "initializeBoard gs = gs\<lparr>
     board := initialBoard,
     borneOff := \<lparr>white = 0, black = 0\<rparr>,
     currentPlayer := White,
     dice := [],
     movesLeft := [],
     phase := Rolling,
     selected := None,
     validMoves := [],
     allMoveSequences := [],
     madeMovesThisTurn := [],
     undoStack := [],
     winner := None,
     winType := Normal,
     cube := \<lparr>cvalue = 1, owner = None\<rparr>,
     doubleOfferedBy := None,
     turnHistory := [],
     currentTurn := None\<rparr>"

text \<open>
  \<open>pipCount\<close>: the loop over \<open>i = 0 .. 23\<close> adds to \<open>pips\<close> only under a comparison
  that holds, so the sum of the loop is a number; the bar term is added unguarded.
\<close>

definition pipLoopWhite :: "board \<Rightarrow> int" where
  "pipLoopWhite b =
     fold (\<lambda>i pips. case cellAt b i of
                       Some n \<Rightarrow> if n > 0 then pips + n * (i + 1) else pips
                     | None \<Rightarrow> pips) [0..23] 0"

definition pipLoopBlack :: "board \<Rightarrow> int" where
  "pipLoopBlack b =
     fold (\<lambda>i pips. case cellAt b i of
                       Some n \<Rightarrow> if n < 0 then pips + (- n) * (24 - i) else pips
                     | None \<Rightarrow> pips) [0..23] 0"

definition pipCount :: "GameState \<Rightarrow> player \<Rightarrow> cell" where
  "pipCount gs player =
     (if player = White
      then js_add (Some (pipLoopWhite (board gs))) (js_mul (cellAt (board gs) WHITE_BAR) (Some 25))
      else js_add (Some (pipLoopBlack (board gs))) (js_mul (cellAt (board gs) BLACK_BAR) (Some 25)))"

section \<open>Rule predicates (Rules.js)\<close>

definition isBlocked :: "board \<Rightarrow> int \<Rightarrow> player \<Rightarrow> bool" where
  "isBlocked b to player =
     (if to = BEAR_OFF then False
      else let v = cellAt b to in
           if player = White then js_le v (- 2) else js_ge v 2)"

definition hasBar :: "board \<Rightarrow> player \<Rightarrow> bool" where
  "hasBar b player =
     (if player = White then js_gt (cellAt b WHITE_BAR) 0 else js_gt (cellAt b BLACK_BAR) 0)"

definition canBearOff :: "board \<Rightarrow> player \<Rightarrow> bool" where
  "canBearOff b player =
     (if hasBar b player then False
      else if player = White then \<not> list_ex (\<lambda>i. js_gt (cellAt b i) 0) [6..23]
      else \<not> list_ex (\<lambda>i. js_lt (cellAt b i) 0) [0..17])"

definition hasWon :: "borneOff \<Rightarrow> player \<Rightarrow> bool" where
  "hasWon bo player = (if player = White then white bo \<ge> 15 else black bo \<ge> 15)"

definition winTypeOf :: "board \<Rightarrow> borneOff \<Rightarrow> player \<Rightarrow> winKind" where
  "winTypeOf b bo w =
     (let loser = (if w = White then Black else White) in
      if loser = Black \<and> black bo = 0 then
        (if js_gt (cellAt b BLACK_BAR) 0 then Backgammon
         else if list_ex (\<lambda>i. js_lt (cellAt b i) 0) [0..5] then Backgammon
         else Gammon)
      else if loser = White \<and> white bo = 0 then
        (if js_gt (cellAt b WHITE_BAR) 0 then Backgammon
         else if list_ex (\<lambda>i. js_gt (cellAt b i) 0) [18..23] then Backgammon
         else Gammon)
      else Normal)"

definition pointValue :: "winKind \<Rightarrow> int \<Rightarrow> int" where
  "pointValue type c =
     (let base = (if type = Backgammon then 3 else if type = Gammon then 2 else 1)
      in base * c)"

section \<open>Move generator (MoveGenerator.js)\<close>

subsection \<open>Applying one move\<close>

text \<open>
  \<open>applyMoveToBoard\<close> works on \<open>b = [...board]\<close> and \<open>bo = {...borneOff}\<close>; as values
  the copies equal the originals. (The store-level model further down keeps the
  copies apart from the originals.)
\<close>

definition applyMoveToBoard :: "board \<Rightarrow> borneOff \<Rightarrow> move \<Rightarrow> player \<Rightarrow> board \<times> borneOff" where
  "applyMoveToBoard brd bo0 m player =
     (let b = brd; bo = bo0; from = mv_from m; to = mv_to m;
          b = (if from = WHITE_BAR then dec b WHITE_BAR
               else if from = BLACK_BAR then dec b BLACK_BAR
               else if player = White then dec b from
               else inc b from)
      in if to = BEAR_OFF then
           (if player = White then (b, bo\<lparr>white := white bo + 1\<rparr>)
            else (b, bo\<lparr>black := black bo + 1\<rparr>))
         else
           let b = (if player = White \<and> js_eq (cellAt b to) (- 1)
                      then inc (bset b to (Some 0)) BLACK_BAR
                    else if player = Black \<and> js_eq (cellAt b to) 1
                      then inc (bset b to (Some 0)) WHITE_BAR
                    else b);
               b = (if player = White then inc b to else dec b to)
           in (b, bo))"

subsection \<open>Single-die legal moves\<close>

definition mkMove :: "int \<Rightarrow> int \<Rightarrow> int \<Rightarrow> bool \<Rightarrow> move" where
  "mkMove f t d h = \<lparr>mv_from = f, mv_to = t, die = d, isHit = h\<rparr>"

definition whiteBearOffMoves :: "board \<Rightarrow> int \<Rightarrow> move list" where
  "whiteBearOffMoves b d =
     concat (map (\<lambda>i.
       if js_le (cellAt b i) 0 then []
       else let dist = i + 1 in
         if dist = d then [mkMove i BEAR_OFF d False]
         else if d > dist then
           (let higherExists = list_ex (\<lambda>j. js_gt (cellAt b j) 0) [i + 1..5]
            in if \<not> higherExists then [mkMove i BEAR_OFF d False] else [])
         else []) [0..5])"

definition whiteRegularMoves :: "board \<Rightarrow> int \<Rightarrow> move list" where
  "whiteRegularMoves b d =
     concat (map (\<lambda>i.
       if js_le (cellAt b i) 0 then []
       else let to = i - d in
         if to \<ge> 0 \<and> \<not> isBlocked b to White
         then [mkMove i to d (js_eq (cellAt b to) (- 1))] else []) (rev [0..23]))"

definition blackBearOffMoves :: "board \<Rightarrow> int \<Rightarrow> move list" where
  "blackBearOffMoves b d =
     concat (map (\<lambda>i.
       if js_ge (cellAt b i) 0 then []
       else let dist = 24 - i in
         if dist = d then [mkMove i BEAR_OFF d False]
         else if d > dist then
           (let furtherExists = list_ex (\<lambda>j. js_lt (cellAt b j) 0) [i + 1..23]
            in if \<not> furtherExists then [mkMove i BEAR_OFF d False] else [])
         else []) (rev [18..23]))"

definition blackRegularMoves :: "board \<Rightarrow> int \<Rightarrow> move list" where
  "blackRegularMoves b d =
     concat (map (\<lambda>i.
       if js_ge (cellAt b i) 0 then []
       else let to = i + d in
         if to \<le> 23 \<and> \<not> isBlocked b to Black
         then [mkMove i to d (js_eq (cellAt b to) 1)] else []) [0..23])"

definition singleDieMoves :: "board \<Rightarrow> borneOff \<Rightarrow> int \<Rightarrow> player \<Rightarrow> move list" where
  "singleDieMoves b bo d player =
     (if player = White then
        (if js_gt (cellAt b WHITE_BAR) 0 then
           (let to = 24 - d in
            if to \<ge> 0 \<and> to \<le> 23 \<and> \<not> isBlocked b to White
            then [mkMove WHITE_BAR to d (js_eq (cellAt b to) (- 1))] else [])
         else
           (if canBearOff b player then whiteBearOffMoves b d else [])
           @ whiteRegularMoves b d)
      else
        (if js_gt (cellAt b BLACK_BAR) 0 then
           (let to = d - 1 in
            if to \<ge> 0 \<and> to \<le> 23 \<and> \<not> isBlocked b to Black
            then [mkMove BLACK_BAR to d (js_eq (cellAt b to) 1)] else [])
         else
           (if canBearOff b player then blackBearOffMoves b d else [])
           @ blackRegularMoves b d))"

subsection \<open>Recursive sequence generator\<close>

text \<open>\<open>diceLeft.filter((_, j) => j !== i)\<close>.\<close>

definition removeAt :: "nat \<Rightarrow> 'a list \<Rightarrow> 'a list" where
  "removeAt i xs = take i xs @ drop (Suc i) xs"

lemma length_removeAt: "i < length xs \<Longrightarrow> length (removeAt i xs) < length xs"
  by (simp add: removeAt_def)

text \<open>
  \<open>generateAll\<close>: the loop runs over the positions \<open>i\<close> of \<open>diceLeft\<close>. The set
  \<open>tried\<close> holds, when position \<open>i\<close> is reached, exactly the values at the positions
  before \<open>i\<close> (each was added when first met), so \<open>tried.has(die)\<close> is
  \<open>die \<in> set (take i diceLeft)\<close>. The loop with \<open>tried\<close> as its state is \<open>forDice\<close>
  below, and \<open>generateAll_loop\<close> shows that \<open>generateAll\<close> runs it.
\<close>

function generateAll ::
  "board \<Rightarrow> borneOff \<Rightarrow> int list \<Rightarrow> player \<Rightarrow> move list \<Rightarrow> move list list" where
  "generateAll b bo diceLeft player prefix =
     (if length diceLeft = 0 then [prefix]
      else
        let sequences =
          concat (map (\<lambda>i.
            let d = diceLeft ! i in
            if d \<in> set (take i diceLeft) then []
            else concat (map (\<lambda>m.
                   case applyMoveToBoard b bo m player of
                     (nb, nbo) \<Rightarrow> generateAll nb nbo (removeAt i diceLeft) player (prefix @ [m]))
                 (singleDieMoves b bo d player))) [0..<length diceLeft])
        in if length sequences = 0 then [prefix] else sequences)"
  by pat_completeness auto
termination
  by (relation "measure (\<lambda>(b, bo, diceLeft, player, prefix). length diceLeft)")
     (auto simp: length_removeAt)

declare generateAll.simps [simp del]

text \<open>
  The \<open>for\<close> loop of \<open>generateAll\<close> with its state: the position \<open>i\<close> and the values
  \<open>tried\<close> so far, in the order in which they were added. \<open>body i die\<close> is what an
  iteration that does not \<open>continue\<close> appends to \<open>sequences\<close>.
\<close>

function forDice :: "(nat \<Rightarrow> int \<Rightarrow> 'a list) \<Rightarrow> int list \<Rightarrow> nat \<Rightarrow> int list \<Rightarrow> 'a list" where
  "forDice body diceLeft i tried =
     (if i < length diceLeft then
        (let d = diceLeft ! i in
         if d \<in> set tried then forDice body diceLeft (i + 1) tried
         else body i d @ forDice body diceLeft (i + 1) (tried @ [d]))
      else [])"
  by pat_completeness auto
termination
  by (relation "measure (\<lambda>(body, diceLeft, i, tried). length diceLeft - i)") auto

declare forDice.simps [simp del]


subsection \<open>Public API\<close>

text \<open>
  \<open>getLegalMoveSequences\<close>. \<open>Math.max\<close> over the lengths starts from \<open>-Infinity\<close>; the
  lengths are natural numbers and \<open>all\<close> is not empty where \<open>maxLen\<close> is computed, so
  folding \<open>max\<close> from \<open>0\<close> gives the same number. In the filter for the higher die
  every \<open>s\<close> has length \<open>maxLen = 1\<close>, so \<open>s[0]\<close> exists.
\<close>

definition getLegalMoveSequences ::
  "board \<Rightarrow> borneOff \<Rightarrow> int list \<Rightarrow> player \<Rightarrow> move list list" where
  "getLegalMoveSequences b bo ds player =
     (let all = generateAll b bo ds player [] in
      if length all = 0 then [[]]
      else
        let maxLen = fold max (map length all) 0;
            best = filter (\<lambda>s. length s = maxLen) all
        in case ds of
             [d0, d1] \<Rightarrow>
               if maxLen = 1 \<and> d0 \<noteq> d1 then
                 (let highDie = max d0 d1;
                      withHigh = filter (\<lambda>s. case s of m # _ \<Rightarrow> die m = highDie | [] \<Rightarrow> False) best
                  in if length withHigh > 0 then withHigh else best)
               else best
           | _ \<Rightarrow> best)"

text \<open>\<open>[...new Set(dice)]\<close>: the distinct values in the order of their first occurrence.\<close>

definition setValues :: "int list \<Rightarrow> int list" where
  "setValues xs = fold (\<lambda>x acc. if x \<in> set acc then acc else acc @ [x]) xs []"

fun hasNoMovesLoop :: "board \<Rightarrow> borneOff \<Rightarrow> int list \<Rightarrow> player \<Rightarrow> bool" where
  "hasNoMovesLoop b bo [] player = True"
| "hasNoMovesLoop b bo (d # ds) player =
     (if length (singleDieMoves b bo d player) > 0 then False
      else hasNoMovesLoop b bo ds player)"

definition hasNoMoves :: "board \<Rightarrow> borneOff \<Rightarrow> int list \<Rightarrow> player \<Rightarrow> bool" where
  "hasNoMoves b bo ds player = hasNoMovesLoop b bo (setValues ds) player"

subsection \<open>Legal sequences of a roll\<close>

text \<open>
  A legal sequence from a position with a roll: each move is a single-die move of some
  die of the roll not used before, made in the position that the moves before it leave.
\<close>

fun legalSeq :: "board \<Rightarrow> borneOff \<Rightarrow> int list \<Rightarrow> player \<Rightarrow> move list \<Rightarrow> bool" where
  "legalSeq b bo ds player [] = True"
| "legalSeq b bo ds player (m # ms) =
     (\<exists>d \<in> set ds. m \<in> set (singleDieMoves b bo d player) \<and>
        (case applyMoveToBoard b bo m player of
           (nb, nbo) \<Rightarrow> legalSeq nb nbo (remove1 d ds) player ms))"

subsection \<open>Checker counts\<close>

text \<open>
  The number of checkers of a player: on the points \<open>0 .. 23\<close>, on the bar and borne
  off. It is a number only if every cell it reads is one.
\<close>

definition ownAt :: "player \<Rightarrow> cell \<Rightarrow> cell" where
  "ownAt player c =
     (if player = White then map_option (\<lambda>n. max n 0) c
      else map_option (\<lambda>n. max (- n) 0) c)"

definition onBoard :: "player \<Rightarrow> board \<Rightarrow> cell" where
  "onBoard player b = fold (\<lambda>i acc. js_add acc (ownAt player (cellAt b i))) [0..23] (Some 0)"

definition barCount :: "player \<Rightarrow> board \<Rightarrow> cell" where
  "barCount player b = cellAt b (if player = White then WHITE_BAR else BLACK_BAR)"

definition offCount :: "player \<Rightarrow> borneOff \<Rightarrow> int" where
  "offCount player bo = (if player = White then white bo else black bo)"

definition checkerCount :: "player \<Rightarrow> board \<Rightarrow> borneOff \<Rightarrow> cell" where
  "checkerCount player b bo =
     js_add (js_add (onBoard player b) (barCount player b)) (Some (offCount player bo))"

subsection \<open>Store-level model of \<open>applyMoveToBoard\<close>\<close>

text \<open>
  Arrays and borne-off objects live in a store and are passed by reference. A reference
  is the position of the object in the store; \<open>[...board]\<close> and \<open>{...borneOff}\<close>
  allocate a new object at the end. A reference handed to a function points into the
  store.
\<close>

record store =
  arrays :: "board list"
  objects :: "borneOff list"

definition newArray :: "store \<Rightarrow> board \<Rightarrow> store \<times> nat" where
  "newArray s b = (s\<lparr>arrays := arrays s @ [b]\<rparr>, length (arrays s))"

definition newObject :: "store \<Rightarrow> borneOff \<Rightarrow> store \<times> nat" where
  "newObject s bo = (s\<lparr>objects := objects s @ [bo]\<rparr>, length (objects s))"

definition st_inc :: "store \<Rightarrow> nat \<Rightarrow> int \<Rightarrow> store" where
  "st_inc s r i = s\<lparr>arrays := (arrays s)[r := inc (arrays s ! r) i]\<rparr>"

definition st_dec :: "store \<Rightarrow> nat \<Rightarrow> int \<Rightarrow> store" where
  "st_dec s r i = s\<lparr>arrays := (arrays s)[r := dec (arrays s ! r) i]\<rparr>"

definition st_set :: "store \<Rightarrow> nat \<Rightarrow> int \<Rightarrow> cell \<Rightarrow> store" where
  "st_set s r i v = s\<lparr>arrays := (arrays s)[r := bset (arrays s ! r) i v]\<rparr>"

definition st_incWhite :: "store \<Rightarrow> nat \<Rightarrow> store" where
  "st_incWhite s r =
     s\<lparr>objects := (objects s)[r := (objects s ! r)\<lparr>white := white (objects s ! r) + 1\<rparr>]\<rparr>"

definition st_incBlack :: "store \<Rightarrow> nat \<Rightarrow> store" where
  "st_incBlack s r =
     s\<lparr>objects := (objects s)[r := (objects s ! r)\<lparr>black := black (objects s ! r) + 1\<rparr>]\<rparr>"

definition applyMoveToBoard_st ::
  "store \<Rightarrow> nat \<Rightarrow> nat \<Rightarrow> move \<Rightarrow> player \<Rightarrow> store \<times> nat \<times> nat" where
  "applyMoveToBoard_st s0 boardRef borneOffRef m player =
     (let (s, b) = newArray s0 (arrays s0 ! boardRef);
          (s, bo) = newObject s (objects s ! borneOffRef);
          from = mv_from m; to = mv_to m;
          s = (if from = WHITE_BAR then st_dec s b WHITE_BAR
               else if from = BLACK_BAR then st_dec s b BLACK_BAR
               else if player = White then st_dec s b from
               else st_inc s b from)
      in if to = BEAR_OFF then
           (if player = White then (st_incWhite s bo, b, bo)
            else (st_incBlack s bo, b, bo))
         else
           let s = (if player = White \<and> js_eq (cellAt (arrays s ! b) to) (- 1)
                      then st_inc (st_set s b to (Some 0)) b BLACK_BAR
                    else if player = Black \<and> js_eq (cellAt (arrays s ! b) to) 1
                      then st_inc (st_set s b to (Some 0)) b WHITE_BAR
                    else s);
               s = (if player = White then st_inc s b to else st_dec s b to)
           in (s, b, bo))"

section \<open>Position evaluator and AIs (GreedyAI.js, RandomAI.js)\<close>

text \<open>The first loop of \<open>evaluate\<close>: the pair \<open>(whitePip, blackPip)\<close>.\<close>

definition evalPips :: "board \<Rightarrow> int \<times> int" where
  "evalPips b =
     fold (\<lambda>i (whitePip, blackPip).
             let whitePip = (case cellAt b i of
                               Some n \<Rightarrow> if n > 0 then whitePip + n * (i + 1) else whitePip
                             | None \<Rightarrow> whitePip);
                 blackPip = (case cellAt b i of
                               Some n \<Rightarrow> if n < 0 then blackPip + (- n) * (24 - i) else blackPip
                             | None \<Rightarrow> blackPip)
             in (whitePip, blackPip)) [0..23] (0, 0)"

definition pipDiff :: "board \<Rightarrow> cell" where
  "pipDiff b =
     (let whitePip = js_add (Some (fst (evalPips b))) (js_mul (cellAt b WHITE_BAR) (Some 25));
          blackPip = js_add (Some (snd (evalPips b))) (js_mul (cellAt b BLACK_BAR) (Some 25))
      in js_sub blackPip whitePip)"

definition blotScore :: "board \<Rightarrow> int" where
  "blotScore b =
     (let (whiteBlots, blackBlots) =
            fold (\<lambda>i (whiteBlots, blackBlots).
                    (if js_eq (cellAt b i) 1 then whiteBlots + 1 else whiteBlots,
                     if js_eq (cellAt b i) (- 1) then blackBlots + 1 else blackBlots))
                 [0..23] (0, 0)
      in (blackBlots - whiteBlots) * 8)"

definition anchorScore :: "board \<Rightarrow> int" where
  "anchorScore b =
     (let (whiteAnchors, blackAnchors) =
            fold (\<lambda>i (whiteAnchors, blackAnchors).
                    (if js_ge (cellAt b i) 2 then whiteAnchors + 1 else whiteAnchors,
                     if js_le (cellAt b i) (- 2) then blackAnchors + 1 else blackAnchors))
                 [0..23] (0, 0)
      in (whiteAnchors - blackAnchors) * 4)"

text \<open>
  The prime-strength loop; its state is \<open>(whitePrime, blackPrime, wRun, bRun)\<close>.
\<close>

definition primeStep :: "board \<Rightarrow> int \<Rightarrow> int \<times> int \<times> int \<times> int \<Rightarrow> int \<times> int \<times> int \<times> int" where
  "primeStep b i st =
     (case st of (whitePrime, blackPrime, wRun, bRun) \<Rightarrow>
        let (wRun, whitePrime) =
              (if js_ge (cellAt b i) 2
               then (wRun + 1, if wRun + 1 \<ge> 2 then whitePrime + 6 else whitePrime)
               else (0, whitePrime));
            (bRun, blackPrime) =
              (if js_le (cellAt b i) (- 2)
               then (bRun + 1, if bRun + 1 \<ge> 2 then blackPrime + 6 else blackPrime)
               else (0, blackPrime))
        in (whitePrime, blackPrime, wRun, bRun))"

definition primeLoop :: "board \<Rightarrow> int \<times> int \<times> int \<times> int" where
  "primeLoop b = fold (primeStep b) [0..23] (0, 0, 0, 0)"

definition whitePrime :: "board \<Rightarrow> int" where
  "whitePrime b = fst (primeLoop b)"

definition blackPrime :: "board \<Rightarrow> int" where
  "blackPrime b = fst (snd (primeLoop b))"

definition primeScore :: "board \<Rightarrow> int" where
  "primeScore b = whitePrime b - blackPrime b"

definition barScore :: "board \<Rightarrow> cell" where
  "barScore b = js_mul (js_sub (cellAt b BLACK_BAR) (cellAt b WHITE_BAR)) (Some 15)"

definition bearScore :: "borneOff \<Rightarrow> int" where
  "bearScore bo = (white bo - black bo) * 10"

definition evaluate :: "board \<Rightarrow> borneOff \<Rightarrow> cell" where
  "evaluate b bo =
     js_add (js_add (js_add (js_add (js_add (pipDiff b) (Some (blotScore b)))
       (Some (anchorScore b))) (Some (primeScore b))) (barScore b)) (Some (bearScore bo))"

text \<open>
  Runs of anchor points, for the statement about the prime term: the flags of the points
  \<open>0 .. 23\<close> held by two or more checkers of a player, and the lengths of the maximal
  runs of consecutive flagged points.
\<close>

definition whiteAnchorFlags :: "board \<Rightarrow> bool list" where
  "whiteAnchorFlags b = map (\<lambda>i. js_ge (cellAt b i) 2) [0..23]"

definition blackAnchorFlags :: "board \<Rightarrow> bool list" where
  "blackAnchorFlags b = map (\<lambda>i. js_le (cellAt b i) (- 2)) [0..23]"

fun runsFrom :: "nat \<Rightarrow> bool list \<Rightarrow> nat list" where
  "runsFrom n [] = (if n > 0 then [n] else [])"
| "runsFrom n (True # xs) = runsFrom (Suc n) xs"
| "runsFrom n (False # xs) = (if n > 0 then n # runsFrom 0 xs else runsFrom 0 xs)"

definition runLengths :: "bool list \<Rightarrow> nat list" where
  "runLengths xs = runsFrom 0 xs"

text \<open>
  The prime score as the specification words it: every point of a run of at least two
  points counts 6.
\<close>

definition specPrime :: "bool list \<Rightarrow> int" where
  "specPrime flags = (\<Sum>l \<leftarrow> runLengths flags. if l \<ge> 2 then 6 * int l else 0)"

text \<open>What the loop computes: every point of a run but its first counts 6.\<close>

definition codePrime :: "bool list \<Rightarrow> int" where
  "codePrime flags = (\<Sum>l \<leftarrow> runLengths flags. 6 * (int l - 1))"

text \<open>
  \<open>applySequence\<close> (the one of GreedyAI.js and the one of GameReview.js, which copies
  its inputs first, compute the same values).
\<close>

definition applySequence :: "board \<Rightarrow> borneOff \<Rightarrow> move list \<Rightarrow> player \<Rightarrow> board \<times> borneOff" where
  "applySequence b bo seq player =
     fold (\<lambda>m (b, bo). applyMoveToBoard b bo m player) seq (b, bo)"

text \<open>
  Scores are JavaScript numbers: a real number, \<open>NaN\<close> or an infinity. (Rounding of
  IEEE doubles is not modelled: arithmetic on finite numbers is exact.)
\<close>

datatype jsnum = Num real | NegInf | PosInf | NaN

definition ofCell :: "cell \<Rightarrow> jsnum" where
  "ofCell c = (case c of Some n \<Rightarrow> Num (of_int n) | None \<Rightarrow> NaN)"

fun num_gt :: "jsnum \<Rightarrow> jsnum \<Rightarrow> bool" where
  "num_gt NaN y = False"
| "num_gt x NaN = False"
| "num_gt (Num a) (Num b) = (a > b)"
| "num_gt (Num a) NegInf = True"
| "num_gt PosInf (Num b) = True"
| "num_gt PosInf NegInf = True"
| "num_gt x y = False"

fun num_le :: "jsnum \<Rightarrow> jsnum \<Rightarrow> bool" where
  "num_le NaN y = False"
| "num_le x NaN = False"
| "num_le (Num a) (Num b) = (a \<le> b)"
| "num_le NegInf y = True"
| "num_le x PosInf = True"
| "num_le x y = False"

fun num_neg :: "jsnum \<Rightarrow> jsnum" where
  "num_neg (Num a) = Num (- a)"
| "num_neg NegInf = PosInf"
| "num_neg PosInf = NegInf"
| "num_neg NaN = NaN"

text \<open>\<open>score += x\<close> for a finite \<open>x\<close>.\<close>

fun num_plus :: "jsnum \<Rightarrow> real \<Rightarrow> jsnum" where
  "num_plus (Num a) x = Num (a + x)"
| "num_plus n x = n"

text \<open>
  \<open>GreedyAI.chooseSequence\<close>. \<open>sequences\<close> may be absent (\<open>None\<close>). \<open>rnd k\<close> is the
  result of the \<open>k\<close>-th call of \<open>Math.random()\<close>; the loop calls it once per sequence.
  The state of the loop is \<open>(best, bestScore)\<close>, \<open>best = None\<close> being \<open>null\<close>.
\<close>

definition greedyStep ::
  "board \<Rightarrow> borneOff \<Rightarrow> player \<Rightarrow> (nat \<Rightarrow> real) \<Rightarrow> nat \<times> move list
     \<Rightarrow> move list option \<times> jsnum \<Rightarrow> move list option \<times> jsnum" where
  "greedyStep b bo player rnd kseq st =
     (case (kseq, st) of ((k, seq), (best, bestScore)) \<Rightarrow>
        let (nb, nbo) = applySequence b bo seq player;
            score = ofCell (evaluate nb nbo);
            score = (if player = Black then num_neg score else score);
            score = num_plus score ((rnd k - 0.5) * 0.5)
        in if num_gt score bestScore then (Some seq, score) else (best, bestScore))"

definition greedyChooseSequence ::
  "move list list option \<Rightarrow> board \<Rightarrow> borneOff \<Rightarrow> player \<Rightarrow> (nat \<Rightarrow> real) \<Rightarrow> move list" where
  "greedyChooseSequence sequences b bo player rnd =
     (case sequences of
        None \<Rightarrow> []
      | Some seqs \<Rightarrow>
          if length seqs = 0 then []
          else
            (case fst (fold (greedyStep b bo player rnd) (zip [0..<length seqs] seqs) (None, NegInf)) of
               Some best \<Rightarrow> best
             | None \<Rightarrow> seqs ! 0))"

text \<open>
  \<open>RandomAI.chooseSequence\<close>; \<open>r\<close> is the result of \<open>Math.random()\<close>. The result
  \<open>None\<close> is \<open>undefined\<close>, read from outside the array.
\<close>

definition randomChooseSequence :: "move list list option \<Rightarrow> real \<Rightarrow> move list option" where
  "randomChooseSequence sequences r =
     (case sequences of
        None \<Rightarrow> Some []
      | Some seqs \<Rightarrow>
          if length seqs = 0 then Some []
          else
            let idx = \<lfloor>r * real (length seqs)\<rfloor>
            in if 0 \<le> idx \<and> nat idx < length seqs then Some (seqs ! nat idx) else None)"

section \<open>Doubling cube (DoublingCube.js) and the end of the game (main.js)\<close>

definition canOffer :: "player \<Rightarrow> cube \<Rightarrow> bool" where
  "canOffer cp c = (owner c = None \<or> owner c = Some cp)"

definition offerDouble :: "GameState \<Rightarrow> GameState" where
  "offerDouble gs = gs\<lparr>doubleOfferedBy := Some (currentPlayer gs), phase := Doubling\<rparr>"

definition acceptDouble :: "GameState \<Rightarrow> GameState" where
  "acceptDouble gs =
     (let accepting = (if doubleOfferedBy gs = Some White then Black else White)
      in gs\<lparr>cube := (cube gs)\<lparr>cvalue := cvalue (cube gs) * 2, owner := Some accepting\<rparr>,
            doubleOfferedBy := None,
            phase := Rolling\<rparr>)"

text \<open>\<open>declineDouble\<close> hands the state, the winner and the points to \<open>endGameFn\<close>.\<close>

definition declineDouble :: "GameState \<Rightarrow> (GameState \<Rightarrow> player option \<Rightarrow> int \<Rightarrow> 'r) \<Rightarrow> 'r" where
  "declineDouble gs endGameFn =
     (let w = doubleOfferedBy gs;
          pts = cvalue (cube gs);
          gs = gs\<lparr>doubleOfferedBy := None, phase := Rolling\<rparr>
      in endGameFn gs w pts)"

text \<open>
  \<open>endGame(forceWinner, pointOverride)\<close> of main.js, without its calls to the user
  interface; main.js passes it to \<open>declineDouble\<close> as \<open>endGameFn\<close>.
\<close>

definition endGame :: "GameState \<Rightarrow> player option \<Rightarrow> int option \<Rightarrow> GameState" where
  "endGame gs0 forceWinner pointOverride =
     (let gs = (case currentTurn gs0 of
                  Some t \<Rightarrow> gs0\<lparr>turnHistory := turnHistory gs0 @ [t], currentTurn := None\<rparr>
                | None \<Rightarrow> gs0);
          gs = gs\<lparr>phase := Gameover\<rparr>;
          w = (case forceWinner of Some f \<Rightarrow> f | None \<Rightarrow> currentPlayer gs);
          type = (if forceWinner \<noteq> None then Normal else winTypeOf (board gs) (borneOff gs) w);
          pts = (case pointOverride of Some p \<Rightarrow> p | None \<Rightarrow> pointValue type (cvalue (cube gs)));
          gs = gs\<lparr>winner := Some w, winType := type\<rparr>
      in if w = White then gs\<lparr>score := (score gs)\<lparr>white := white (score gs) + pts\<rparr>\<rparr>
         else gs\<lparr>score := (score gs)\<lparr>black := black (score gs) + pts\<rparr>\<rparr>)"

section \<open>Game reviewer (GameReview.js)\<close>

datatype rating = Best | Good | Inaccuracy | Mistake | Blunder

definition THRESHOLDS :: "(jsnum \<times> rating) list" where
  "THRESHOLDS =
     [(Num 3, Best), (Num 8, Good), (Num 18, Inaccuracy), (Num 35, Mistake), (PosInf, Blunder)]"

fun rateLoop :: "(jsnum \<times> rating) list \<Rightarrow> jsnum \<Rightarrow> rating" where
  "rateLoop [] scoreDiff = Blunder"
| "rateLoop ((mx, r) # ts) scoreDiff = (if num_le scoreDiff mx then r else rateLoop ts scoreDiff)"

definition rateMove :: "jsnum \<Rightarrow> rating" where
  "rateMove scoreDiff = rateLoop THRESHOLDS scoreDiff"

text \<open>\<open>Math.max(0, x)\<close>.\<close>

definition max0 :: "cell \<Rightarrow> cell" where
  "max0 c = map_option (\<lambda>n. max 0 n) c"

record grade =
  g_turn :: turn
  bestSeq :: "move list"
  scoreDiff :: cell
  g_rating :: rating

record accuracy =
  acc_white :: int
  acc_black :: int

text \<open>
  The loop of \<open>analyzeGame\<close>; its state is
  \<open>(grades, whiteTurns, whiteGood, blackTurns, blackGood)\<close>. The AI is any function
  from the number of the turn and the arguments of \<open>chooseSequence\<close> to a sequence, or
  to a value (\<open>None\<close>) that \<open>|| []\<close> replaces by the empty sequence.
\<close>

type_synonym ai = "nat \<Rightarrow> move list list \<Rightarrow> board \<Rightarrow> borneOff \<Rightarrow> player \<Rightarrow> move list option"

definition gradeTurn :: "ai \<Rightarrow> nat \<Rightarrow> turn \<Rightarrow> grade" where
  "gradeTurn chooseSequence k t =
     (let allSeqs = getLegalMoveSequences (boardBefore t) (borneOffBefore t) (t_dice t) (t_player t);
          bestSeq = (case chooseSequence k allSeqs (boardBefore t) (borneOffBefore t) (t_player t) of
                       Some s \<Rightarrow> s | None \<Rightarrow> []);
          (boardActual, boActual) = applySequence (boardBefore t) (borneOffBefore t) (moves t) (t_player t);
          (boardBest, boBest) = applySequence (boardBefore t) (borneOffBefore t) bestSeq (t_player t);
          scoreActual = evaluate boardActual boActual;
          scoreBest = evaluate boardBest boBest;
          scoreDiff = js_sub scoreBest scoreActual;
          scoreDiff = (if t_player t = Black then map_option uminus scoreDiff else scoreDiff);
          rating = rateMove (ofCell (max0 scoreDiff))
      in \<lparr>g_turn = t, bestSeq = bestSeq, scoreDiff = scoreDiff, g_rating = rating\<rparr>)"

definition analyzeStep ::
  "ai \<Rightarrow> nat \<times> turn \<Rightarrow> grade list \<times> nat \<times> nat \<times> nat \<times> nat \<Rightarrow> grade list \<times> nat \<times> nat \<times> nat \<times> nat" where
  "analyzeStep chooseSequence kt st =
     (case (kt, st) of ((k, t), (grades, whiteTurns, whiteGood, blackTurns, blackGood)) \<Rightarrow>
        let g = gradeTurn chooseSequence k t;
            good = (g_rating g = Best \<or> g_rating g = Good)
        in if t_player t = White
           then (grades @ [g], whiteTurns + 1, (if good then whiteGood + 1 else whiteGood),
                 blackTurns, blackGood)
           else (grades @ [g], whiteTurns, whiteGood,
                 blackTurns + 1, (if good then blackGood + 1 else blackGood)))"

text \<open>
  The quotient and the product of \<open>(good / turns) * 100\<close> are IEEE 754 doubles: the
  exact result rounded to the nearest number with 53 significant bits, a tie going to
  the even one. A double is kept as a numerator and a power of two as denominator. The
  numbers here are far from the largest and the smallest doubles, so the exponent is
  not bounded.

  \<open>rne p q\<close> is the integer nearest to \<open>p / q\<close>, a tie going to the even one.
  \<open>upShift p q\<close> counts the doublings of \<open>p\<close> until \<open>p / q\<close> is at least \<open>2^52\<close>, and
  \<open>downShift p q\<close> the doublings of \<open>q\<close> until \<open>p / q\<close> is below \<open>2^53\<close>; then
  \<open>p / q\<close> has 53 bits before the binary point. \<open>fl64 p q\<close> is the double nearest to
  \<open>p / q\<close> for natural numbers \<open>p\<close> and \<open>q > 0\<close> (a division by 0 does not occur:
  \<open>analyzeGame\<close> divides only when \<open>turns > 0\<close>).
\<close>

type_synonym dbl = "int \<times> int"

definition dval :: "dbl \<Rightarrow> real" where
  "dval x = real_of_int (fst x) / real_of_int (snd x)"

definition rne :: "int \<Rightarrow> int \<Rightarrow> int" where
  "rne p q =
     (let k = p div q; r = p mod q
      in if 2 * r < q then k
         else if 2 * r > q then k + 1
         else if even k then k else k + 1)"

function upShift :: "int \<Rightarrow> int \<Rightarrow> nat" where
  "upShift p q = (if 0 < p \<and> p < 2 ^ 52 * q then Suc (upShift (2 * p) q) else 0)"
  by pat_completeness auto
termination
  by (relation "measure (\<lambda>(p, q). nat (2 ^ 52 * q - p))") auto

declare upShift.simps [simp del]

function downShift :: "int \<Rightarrow> int \<Rightarrow> nat" where
  "downShift p q = (if 0 < q \<and> 2 ^ 53 * q \<le> p then Suc (downShift p (2 * q)) else 0)"
  by pat_completeness auto
termination
  by (relation "measure (\<lambda>(p, q). nat (p + 1 - 2 ^ 53 * q))") auto

declare downShift.simps [simp del]

definition fl64 :: "int \<Rightarrow> int \<Rightarrow> dbl" where
  "fl64 p q =
     (if p \<le> 0 \<or> q \<le> 0 then (0, 1)
      else
        let i = upShift p q;
            j = downShift (p * 2 ^ i) q;
            m = rne (p * 2 ^ i) (q * 2 ^ j)
        in (m * 2 ^ j, 2 ^ i))"

text \<open>
  \<open>a / b\<close> for two counters, \<open>x * c\<close> for a double and a whole number, and
  \<open>Math.round\<close>, which rounds a half up.
\<close>

definition fdiv :: "nat \<Rightarrow> nat \<Rightarrow> dbl" where
  "fdiv a b = fl64 (int a) (int b)"

definition fmul :: "dbl \<Rightarrow> int \<Rightarrow> dbl" where
  "fmul x c = fl64 (fst x * c) (snd x)"

definition Math_round :: "dbl \<Rightarrow> int" where
  "Math_round x = \<lfloor>dval x + 1 / 2\<rfloor>"

text \<open>\<open>Math.round((good / turns) * 100)\<close>, or 100 when there were no turns.\<close>

definition percent :: "nat \<Rightarrow> nat \<Rightarrow> int" where
  "percent good turns = (if turns > 0 then Math_round (fmul (fdiv good turns) 100) else 100)"

definition analyzeGame :: "turn list \<Rightarrow> ai \<Rightarrow> grade list \<times> accuracy" where
  "analyzeGame history chooseSequence =
     (case fold (analyzeStep chooseSequence) (zip [0..<length history] history) ([], 0, 0, 0, 0) of
        (grades, whiteTurns, whiteGood, blackTurns, blackGood) \<Rightarrow>
          (grades, \<lparr>acc_white = percent whiteGood whiteTurns,
                    acc_black = percent blackGood blackTurns\<rparr>))"

section \<open>Notions used in the statements and proofs\<close>

subsection \<open>Ratings of the turns of a player\<close>

definition isGood :: "grade \<Rightarrow> bool" where
  "isGood g = (g_rating g = Best \<or> g_rating g = Good)"

definition turnsOf :: "player \<Rightarrow> grade list \<Rightarrow> grade list" where
  "turnsOf p grades = filter (\<lambda>g. t_player (g_turn g) = p) grades"

subsection \<open>Boards of numbers\<close>

text \<open>
  A board whose cells \<open>0 .. 25\<close> are all numbers, the checkers of a player on the points
  of such a board, and the total with bar and borne-off checkers.
\<close>

definition numB :: "board \<Rightarrow> bool" where
  "numB b = (26 \<le> length b \<and> list_all (\<lambda>c. c \<noteq> None) (take 26 b))"

definition own :: "player \<Rightarrow> int \<Rightarrow> int" where
  "own p n = (if p = White then max n 0 else max (- n) 0)"

definition pts :: "player \<Rightarrow> board \<Rightarrow> int" where
  "pts p b = sum_list (map (\<lambda>c. own p (the c)) (take 24 b))"

definition total :: "player \<Rightarrow> board \<Rightarrow> borneOff \<Rightarrow> int" where
  "total p b bo = pts p b + the (b ! (if p = White then 24 else 25)) + offCount p bo"

subsection \<open>Parts of the sequence search\<close>

text \<open>The list \<open>sequences\<close> that the loop of \<open>generateAll\<close> builds.\<close>

definition genBody ::
  "board \<Rightarrow> borneOff \<Rightarrow> int list \<Rightarrow> player \<Rightarrow> move list \<Rightarrow> move list list" where
  "genBody b bo diceLeft player prefix =
     concat (map (\<lambda>i.
            let d = diceLeft ! i in
            if d \<in> set (take i diceLeft) then []
            else concat (map (\<lambda>m.
                   case applyMoveToBoard b bo m player of
                     (nb, nbo) \<Rightarrow> generateAll nb nbo (removeAt i diceLeft) player (prefix @ [m]))
                 (singleDieMoves b bo d player))) [0..<length diceLeft])"

text \<open>\<open>maxLen\<close>, \<open>best\<close> and the filter for the higher die of \<open>getLegalMoveSequences\<close>.\<close>

definition maxLenOf :: "move list list \<Rightarrow> nat" where
  "maxLenOf all = fold max (map length all) 0"

definition bestOf :: "move list list \<Rightarrow> move list list" where
  "bestOf all = filter (\<lambda>s. length s = maxLenOf all) all"

definition usesDie :: "int \<Rightarrow> move list \<Rightarrow> bool" where
  "usesDie h s = (case s of m # _ \<Rightarrow> die m = h | [] \<Rightarrow> False)"

subsection \<open>Example positions\<close>

text \<open>The opening position after White has played 3-1 as 8/5 6/5.\<close>

definition afterOpening31 :: board where
  "afterOpening31 =
     [Some (- 2), Some 0, Some 0, Some 0, Some 2, Some 4, Some 0, Some 2, Some 0, Some 0,
      Some 0, Some (- 5), Some 5, Some 0, Some 0, Some 0, Some (- 3), Some 0, Some (- 5),
      Some 0, Some 0, Some 0, Some 0, Some 2, Some 0, Some 0]"

text \<open>The opening position with one of White's two back checkers on the bar.\<close>

definition whiteOnBar :: board where
  "whiteOnBar = bset (bset initialBoard 23 (Some 1)) WHITE_BAR (Some 1)"

text \<open>
  White's last checker on point 9 and a black point on point 1: with 6 and 2 only one
  of the dice can be played.
\<close>

definition oneDieBoard :: board where
  "oneDieBoard = bset (bset emptyBoard 8 (Some 1)) 0 (Some (- 2))"

definition oneDieOff :: borneOff where
  "oneDieOff = \<lparr>white = 14, black = 13\<rparr>"

text \<open>A position without any checker on the points or the bar.\<close>

definition allOff :: borneOff where
  "allOff = \<lparr>white = 15, black = 15\<rparr>"

text \<open>
  White's last checker on point 7 next to Black's last checker, a blot on point 6. With
  6 and 1 White hits and bears off (\<open>hitSeq\<close>), or runs past the blot (\<open>missSeq\<close>).
\<close>

definition raceBoard :: board where
  "raceBoard = bset (bset emptyBoard 6 (Some 1)) 5 (Some (- 1))"

definition raceOff :: borneOff where
  "raceOff = \<lparr>white = 14, black = 14\<rparr>"

definition hitSeq :: "move list" where
  "hitSeq = [mkMove 6 5 1 True, mkMove 5 BEAR_OFF 6 False]"

definition missSeq :: "move list" where
  "missSeq = [mkMove 6 0 6 False, mkMove 0 BEAR_OFF 1 False]"

definition raceTurn :: "move list \<Rightarrow> turn" where
  "raceTurn ms = \<lparr>t_player = White, t_dice = [6, 1], boardBefore = raceBoard,
     borneOffBefore = raceOff, cubeValue = 1, moves = ms\<rparr>"

definition raceHistory :: "turn list" where
  "raceHistory = [raceTurn hitSeq, raceTurn missSeq, raceTurn missSeq]"

text \<open>The greedy AI with \<open>Math.random()\<close> returning one half at every call.\<close>

definition constHalf :: "nat \<Rightarrow> real" where
  "constHalf k = 1 / 2"

definition greedyNoNoise :: ai where
  "greedyNoNoise k seqs b bo p = Some (greedyChooseSequence (Some seqs) b bo p constHalf)"

text \<open>A store holding the opening position.\<close>

definition openingStore :: store where
  "openingStore = \<lparr>arrays = [initialBoard], objects = [\<lparr>white = 0, black = 0\<rparr>]\<rparr>"

section \<open>Opening position\<close>

lemma initialBoard_cells:
  "initialBoard =
     [Some (- 2), Some 0, Some 0, Some 0, Some 0, Some 5, Some 0, Some 3, Some 0, Some 0,
      Some 0, Some (- 5), Some 5, Some 0, Some 0, Some 0, Some (- 3), Some 0, Some (- 5),
      Some 0, Some 0, Some 0, Some 0, Some 2, Some 0, Some 0]"
  by (simp add: initialBoard_def emptyBoard_def bset_def numeral_eq_Suc)

lemma pip_white_init: "pipLoopWhite initialBoard = 167"
  unfolding initialBoard_cells pipLoopWhite_def by (simp add: cellAt_def upto_rec1)

lemma pip_black_init: "pipLoopBlack initialBoard = 167"
  unfolding initialBoard_cells pipLoopBlack_def by (simp add: cellAt_def upto_rec1)

text \<open>
  Claim C8. After \<open>initializeBoard\<close> the board has the entries 0: -2, 5: 5, 7: 3,
  11: -5, 12: 5, 16: -3, 18: -5, 23: 2 and 0 everywhere else, both bars included, and
  \<open>pipCount\<close> is 167 for White and 167 for Black.
\<close>

theorem opening_position:
  "board (initializeBoard gs) =
     [Some (- 2), Some 0, Some 0, Some 0, Some 0, Some 5, Some 0, Some 3, Some 0, Some 0,
      Some 0, Some (- 5), Some 5, Some 0, Some 0, Some 0, Some (- 3), Some 0, Some (- 5),
      Some 0, Some 0, Some 0, Some 0, Some 2, Some 0, Some 0]
   \<and> pipCount (initializeBoard gs) White = Some 167
   \<and> pipCount (initializeBoard gs) Black = Some 167"
proof -
  have b: "board (initializeBoard gs) = initialBoard"
    by (simp add: initializeBoard_def)
  have w: "cellAt initialBoard WHITE_BAR = Some 0" "cellAt initialBoard BLACK_BAR = Some 0"
    unfolding initialBoard_cells by (simp_all add: cellAt_def WHITE_BAR_def BLACK_BAR_def)
  show ?thesis
    unfolding pipCount_def b
    by (simp add: w pip_white_init pip_black_init js_add_def js_mul_def
          initialBoard_cells[symmetric])
qed

section \<open>Facts about the moves of one die\<close>


section \<open>Bar priority\<close>

text \<open>
  Claim C2. When the player has a checker on the bar (\<open>board[24] > 0\<close> for White,
  \<open>board[25] > 0\<close> for Black), \<open>singleDieMoves\<close> returns at most one move, and every
  move it returns starts from that player's bar index and enters at index \<open>24 - die\<close>
  for White and \<open>die - 1\<close> for Black, a point of the board: no bear-off and no move
  from a point is returned.
\<close>

theorem bar_priority:
  assumes "js_gt (cellAt b (if player = White then WHITE_BAR else BLACK_BAR)) 0"
    and "m \<in> set (singleDieMoves b bo d player)"
  shows "mv_from m = (if player = White then WHITE_BAR else BLACK_BAR)
         \<and> mv_to m = (if player = White then 24 - d else d - 1)
         \<and> 0 \<le> mv_to m \<and> mv_to m \<le> 23 \<and> mv_to m \<noteq> BEAR_OFF
         \<and> die m = d
         \<and> length (singleDieMoves b bo d player) \<le> 1"
  using assms
  by (auto simp: singleDieMoves_def mkMove_def Let_def BEAR_OFF_def split: if_splits)

theorem bar_priority_witness:
  "js_gt (cellAt whiteOnBar WHITE_BAR) 0
   \<and> singleDieMoves whiteOnBar \<lparr>white = 0, black = 0\<rparr> 3 White = [mkMove WHITE_BAR 21 3 False]
   \<and> mv_from (mkMove WHITE_BAR 21 3 False) = WHITE_BAR
   \<and> mv_to (mkMove WHITE_BAR 21 3 False) = 24 - 3"
proof -
  have h: "js_gt (cellAt whiteOnBar (if White = White then WHITE_BAR else BLACK_BAR)) 0"
    by code_simp
  have l: "singleDieMoves whiteOnBar \<lparr>white = 0, black = 0\<rparr> 3 White = [mkMove WHITE_BAR 21 3 False]"
    by code_simp
  then have m: "mkMove WHITE_BAR 21 3 False
      \<in> set (singleDieMoves whiteOnBar \<lparr>white = 0, black = 0\<rparr> 3 White)"
    by simp
  show ?thesis using bar_priority[OF h m] h l by simp
qed

section \<open>Doubling cube\<close>

text \<open>
  Claim C6. With the cube at value \<open>v\<close> and a double pending that player \<open>p\<close> offered,
  \<open>acceptDouble\<close> sets the cube to value \<open>2 v\<close> owned by the opponent of \<open>p\<close>, returns
  the phase to rolling and leaves the player to move unchanged; \<open>declineDouble\<close> calls
  \<open>endGameFn\<close> with \<open>p\<close> as winner and \<open>v\<close> as points, and with the \<open>endGame\<close> of
  main.js the winner is \<open>p\<close>, the score of \<open>p\<close> grows by \<open>v\<close> and the cube is unchanged.
  From a centred cube of value 1, offer and accept give value 2 owned by the accepting
  player, and a second offer and accept give value 4.
\<close>

theorem doubling_cube:
  "(doubleOfferedBy gs = Some p \<and> cube gs = \<lparr>cvalue = v, owner = ow\<rparr> \<longrightarrow>
      cube (acceptDouble gs) = \<lparr>cvalue = 2 * v, owner = Some (if p = White then Black else White)\<rparr>
      \<and> phase (acceptDouble gs) = Rolling
      \<and> currentPlayer (acceptDouble gs) = currentPlayer gs
      \<and> doubleOfferedBy (acceptDouble gs) = None
      \<and> declineDouble gs f = f (gs\<lparr>doubleOfferedBy := None, phase := Rolling\<rparr>) (Some p) v
      \<and> winner (declineDouble gs (\<lambda>g w pts. endGame g w (Some pts))) = Some p
      \<and> cube (declineDouble gs (\<lambda>g w pts. endGame g w (Some pts))) = \<lparr>cvalue = v, owner = ow\<rparr>
      \<and> score (declineDouble gs (\<lambda>g w pts. endGame g w (Some pts))) =
          (if p = White then (score gs)\<lparr>white := white (score gs) + v\<rparr>
           else (score gs)\<lparr>black := black (score gs) + v\<rparr>))
   \<and> (cube gs = \<lparr>cvalue = 1, owner = None\<rparr> \<longrightarrow>
      cube (acceptDouble (offerDouble gs)) =
        \<lparr>cvalue = 2, owner = Some (if currentPlayer gs = White then Black else White)\<rparr>
      \<and> cvalue (cube (acceptDouble (offerDouble (acceptDouble (offerDouble gs))))) = 4)"
  by (auto simp: acceptDouble_def declineDouble_def offerDouble_def endGame_def Let_def
           split: option.splits)

theorem doubling_cube_witness:
  "doubleOfferedBy (offerDouble (initializeBoard newGameState)) = Some White
   \<and> cube (offerDouble (initializeBoard newGameState)) = \<lparr>cvalue = 1, owner = None\<rparr>
   \<and> cube (acceptDouble (offerDouble (initializeBoard newGameState))) =
       \<lparr>cvalue = 2, owner = Some Black\<rparr>
   \<and> phase (acceptDouble (offerDouble (initializeBoard newGameState))) = Rolling
   \<and> currentPlayer (acceptDouble (offerDouble (initializeBoard newGameState))) = White
   \<and> winner (declineDouble (offerDouble (initializeBoard newGameState))
               (\<lambda>g w pts. endGame g w (Some pts))) = Some White
   \<and> score (declineDouble (offerDouble (initializeBoard newGameState))
               (\<lambda>g w pts. endGame g w (Some pts))) = \<lparr>white = 1, black = 0\<rparr>
   \<and> cvalue (cube (acceptDouble (offerDouble (acceptDouble (offerDouble
        (initializeBoard newGameState)))))) = 4"
proof -
  let ?gs = "offerDouble (initializeBoard newGameState)"
  let ?f = "\<lambda>g w pts. endGame g w (Some pts)"
  have h: "doubleOfferedBy ?gs = Some White \<and> cube ?gs = \<lparr>cvalue = 1, owner = None\<rparr>"
    by (simp add: offerDouble_def initializeBoard_def newGameState_def)
  have c: "cube (initializeBoard newGameState) = \<lparr>cvalue = 1, owner = None\<rparr>"
    by (simp add: initializeBoard_def)
  have p: "currentPlayer ?gs = White" and sc: "score ?gs = \<lparr>white = 0, black = 0\<rparr>"
    by (simp_all add: offerDouble_def initializeBoard_def newGameState_def)
  have t1: "cube (acceptDouble ?gs) = \<lparr>cvalue = 2 * 1, owner = Some (if White = White then Black else White)\<rparr>
      \<and> phase (acceptDouble ?gs) = Rolling
      \<and> currentPlayer (acceptDouble ?gs) = currentPlayer ?gs
      \<and> doubleOfferedBy (acceptDouble ?gs) = None
      \<and> winner (declineDouble ?gs ?f) = Some White
      \<and> cube (declineDouble ?gs ?f) = \<lparr>cvalue = 1, owner = None\<rparr>
      \<and> score (declineDouble ?gs ?f) =
          (if White = White then (score ?gs)\<lparr>white := white (score ?gs) + 1\<rparr>
           else (score ?gs)\<lparr>black := black (score ?gs) + 1\<rparr>)"
    using doubling_cube[of ?gs White 1 None ?f] h by blast
  have t2: "cvalue (cube (acceptDouble (offerDouble (acceptDouble ?gs)))) = 4"
    using doubling_cube[of "initializeBoard newGameState" White 1 None ?f] c by blast
  have s1: "score (declineDouble ?gs ?f) = \<lparr>white = 1, black = 0\<rparr>"
    using t1 by (simp add: sc)
  show ?thesis using t1 t2 h p s1 by simp
qed

section \<open>Prime strength\<close>

lemma primeStep_eq:
  "primeStep b i (wp, bp, wr, br) =
     ((if js_ge (cellAt b i) 2 \<and> wr + 1 \<ge> 2 then wp + 6 else wp),
      (if js_le (cellAt b i) (- 2) \<and> br + 1 \<ge> 2 then bp + 6 else bp),
      (if js_ge (cellAt b i) 2 then wr + 1 else 0),
      (if js_le (cellAt b i) (- 2) then br + 1 else 0))"
  by (simp add: primeStep_def)

lemma white_fold:
  "fst (fold (primeStep b) is (wp, bp, wr, br)) =
     wp + (\<Sum>l \<leftarrow> runsFrom (nat wr) (map (\<lambda>i. js_ge (cellAt b i) 2) is). 6 * (int l - 1))
        - (if wr > 0 then 6 * (wr - 1) else 0)"
  if "wr \<ge> 0"
  using that
proof (induction "is" arbitrary: wp bp wr br)
  case Nil
  then show ?case by simp
next
  case (Cons i "is")
  show ?case
  proof (cases "js_ge (cellAt b i) 2")
    case True
    have "nat (wr + 1) = Suc (nat wr)" using Cons.prems by simp
    then show ?thesis using True Cons.prems
      by (simp add: primeStep_eq Cons.IH)
  next
    case False
    then show ?thesis using Cons.prems
      by (simp add: primeStep_eq Cons.IH)
  qed
qed

lemma black_fold:
  "fst (snd (fold (primeStep b) is (wp, bp, wr, br))) =
     bp + (\<Sum>l \<leftarrow> runsFrom (nat br) (map (\<lambda>i. js_le (cellAt b i) (- 2)) is). 6 * (int l - 1))
        - (if br > 0 then 6 * (br - 1) else 0)"
  if "br \<ge> 0"
  using that
proof (induction "is" arbitrary: wp bp wr br)
  case Nil
  then show ?case by simp
next
  case (Cons i "is")
  show ?case
  proof (cases "js_le (cellAt b i) (- 2)")
    case True
    have "nat (br + 1) = Suc (nat br)" using Cons.prems by simp
    then show ?thesis using True Cons.prems
      by (simp add: primeStep_eq Cons.IH)
  next
    case False
    then show ?thesis using Cons.prems
      by (simp add: primeStep_eq Cons.IH)
  qed
qed

text \<open>
  Claim C5, as amended. The prime-strength term of \<open>evaluate\<close> adds 6 for each point
  of a run of consecutive points held by two or more checkers of one player, except the
  first point of the run: a run of length \<open>L\<close> contributes \<open>6 (L - 1)\<close> to that
  player's prime score, and White's prime score minus Black's enters the total.
\<close>

theorem prime_strength_amended:
  "whitePrime b = codePrime (whiteAnchorFlags b)
   \<and> blackPrime b = codePrime (blackAnchorFlags b)
   \<and> primeScore b = codePrime (whiteAnchorFlags b) - codePrime (blackAnchorFlags b)
   \<and> evaluate b bo =
       js_add (js_add (js_add (js_add (js_add (pipDiff b) (Some (blotScore b)))
         (Some (anchorScore b)))
         (Some (codePrime (whiteAnchorFlags b) - codePrime (blackAnchorFlags b))))
         (barScore b)) (Some (bearScore bo))"
proof -
  have w: "whitePrime b = codePrime (whiteAnchorFlags b)"
    unfolding whitePrime_def primeLoop_def codePrime_def whiteAnchorFlags_def runLengths_def
    using white_fold[of 0 b "[0..23]" 0 0 0] by simp
  have k: "blackPrime b = codePrime (blackAnchorFlags b)"
    unfolding blackPrime_def primeLoop_def codePrime_def blackAnchorFlags_def runLengths_def
    using black_fold[of 0 b "[0..23]" 0 0 0] by simp
  show ?thesis using w k by (simp add: primeScore_def evaluate_def)
qed

text \<open>
  Claim C5 as stated fails: after 8/5 6/5 White holds the two neighbouring points 5 and
  6 and no other run of two; the claim gives White 12, the loop gives 6.
\<close>

theorem prime_strength_counterexample:
  "runLengths (whiteAnchorFlags afterOpening31) = [2, 1, 1, 1]
   \<and> runLengths (blackAnchorFlags afterOpening31) = [1, 1, 1, 1]
   \<and> specPrime (whiteAnchorFlags afterOpening31) - specPrime (blackAnchorFlags afterOpening31) = 12
   \<and> primeScore afterOpening31 = 6
   \<and> primeScore afterOpening31
       \<noteq> specPrime (whiteAnchorFlags afterOpening31) - specPrime (blackAnchorFlags afterOpening31)"
  by code_simp

section \<open>\<open>applyMoveToBoard\<close> leaves its inputs alone\<close>

text \<open>
  Claim C9. \<open>applyMoveToBoard\<close> leaves the board array and the borne-off object it is
  given unchanged, like every object that existed before the call; the board and the
  borne-off object it returns are new objects, and they hold the values of the
  value-level model.
\<close>

theorem applyMove_leaves_inputs:
  assumes "boardRef < length (arrays s)" and "borneOffRef < length (objects s)"
    and "applyMoveToBoard_st s boardRef borneOffRef m player = (s', rb, rbo)"
  shows "arrays s' ! boardRef = arrays s ! boardRef
     \<and> objects s' ! borneOffRef = objects s ! borneOffRef
     \<and> take (length (arrays s)) (arrays s') = arrays s
     \<and> take (length (objects s)) (objects s') = objects s
     \<and> rb = length (arrays s) \<and> rbo = length (objects s)
     \<and> length (arrays s') = Suc (length (arrays s))
     \<and> length (objects s') = Suc (length (objects s))
     \<and> (arrays s' ! rb, objects s' ! rbo) =
         applyMoveToBoard (arrays s ! boardRef) (objects s ! borneOffRef) m player"
  using assms
  by (auto simp: applyMoveToBoard_st_def applyMoveToBoard_def newArray_def newObject_def
        st_inc_def st_dec_def st_set_def st_incWhite_def st_incBlack_def Let_def nth_append
        split: if_splits)

theorem applyMove_leaves_inputs_witness:
  "0 < length (arrays openingStore) \<and> 0 < length (objects openingStore)
   \<and> arrays (fst (applyMoveToBoard_st openingStore 0 0 (mkMove 23 20 3 False) White)) ! 0
       = initialBoard
   \<and> objects (fst (applyMoveToBoard_st openingStore 0 0 (mkMove 23 20 3 False) White)) ! 0
       = \<lparr>white = 0, black = 0\<rparr>
   \<and> snd (applyMoveToBoard_st openingStore 0 0 (mkMove 23 20 3 False) White) = (1, 1)
   \<and> arrays (fst (applyMoveToBoard_st openingStore 0 0 (mkMove 23 20 3 False) White)) ! 1
       = bset (bset initialBoard 23 (Some 1)) 20 (Some 1)"
proof -
  let ?r = "applyMoveToBoard_st openingStore 0 0 (mkMove 23 20 3 False) White"
  have a: "0 < length (arrays openingStore)" and o: "0 < length (objects openingStore)"
    by (simp_all add: openingStore_def)
  have r: "?r = (fst ?r, fst (snd ?r), snd (snd ?r))" by simp
  have v: "applyMoveToBoard initialBoard \<lparr>white = 0, black = 0\<rparr> (mkMove 23 20 3 False) White
      = (bset (bset initialBoard 23 (Some 1)) 20 (Some 1), \<lparr>white = 0, black = 0\<rparr>)"
    by code_simp
  have i: "arrays openingStore ! 0 = initialBoard"
    "objects openingStore ! 0 = \<lparr>white = 0, black = 0\<rparr>"
    "length (arrays openingStore) = 1" "length (objects openingStore) = 1"
    by (simp_all add: openingStore_def)
  show ?thesis
    using applyMove_leaves_inputs[OF a o r] a o v i
    by (metis fst_conv prod.collapse)
qed

section \<open>The choice of the AIs\<close>

lemma greedyStep_best:
  "fst (greedyStep b bo player rnd (k, seq) (best, sc)) = best
   \<or> fst (greedyStep b bo player rnd (k, seq) (best, sc)) = Some seq"
  by (simp add: greedyStep_def Let_def split: prod.splits)

lemma greedy_fold_best:
  "snd ` set xs \<subseteq> S \<Longrightarrow> best = None \<or> (\<exists>s \<in> S. best = Some s) \<Longrightarrow>
   fst (fold (greedyStep b bo player rnd) xs (best, sc)) = None
   \<or> (\<exists>s \<in> S. fst (fold (greedyStep b bo player rnd) xs (best, sc)) = Some s)"
proof (induction xs arbitrary: best sc)
  case Nil
  then show ?case by simp
next
  case (Cons x xs)
  obtain k seq where x: "x = (k, seq)" by (cases x)
  obtain best' sc' where st: "greedyStep b bo player rnd (k, seq) (best, sc) = (best', sc')"
    by (cases "greedyStep b bo player rnd (k, seq) (best, sc)")
  have "seq \<in> S" using Cons.prems(1) x by auto
  moreover have "best' = best \<or> best' = Some seq"
    using greedyStep_best[of b bo player rnd k seq best sc] st by simp
  ultimately have "best' = None \<or> (\<exists>s \<in> S. best' = Some s)"
    using Cons.prems(2) by auto
  moreover have "snd ` set xs \<subseteq> S" using Cons.prems(1) by auto
  ultimately show ?case
    using Cons.IH[of best' sc'] by (simp add: x st)
qed

lemma greedy_some:
  assumes "seqs \<noteq> []"
  shows "greedyChooseSequence (Some seqs) b bo player rnd \<in> set seqs"
proof -
  let ?r = "fst (fold (greedyStep b bo player rnd) (zip [0..<length seqs] seqs) (None, NegInf))"
  have "snd ` set (zip [0..<length seqs] seqs) \<subseteq> set seqs"
    by (auto dest: set_zip_rightD)
  then have "?r = None \<or> (\<exists>s \<in> set seqs. ?r = Some s)"
    by (rule greedy_fold_best) simp
  moreover have "seqs ! 0 \<in> set seqs" using assms by simp
  ultimately show ?thesis using assms
    by (auto simp: greedyChooseSequence_def)
qed

lemma random_some:
  assumes "seqs \<noteq> []" "0 \<le> r" "r < 1"
  shows "\<exists>s \<in> set seqs. randomChooseSequence (Some seqs) r = Some s"
proof -
  let ?n = "real (length seqs)"
  have n: "?n > 0" using assms(1) by simp
  have lo: "0 \<le> \<lfloor>r * ?n\<rfloor>" using assms(2) by simp
  have "r * ?n < ?n" using assms(3) n by simp
  then have "\<lfloor>r * ?n\<rfloor> < int (length seqs)" by (simp add: floor_less_iff)
  then have hi: "nat \<lfloor>r * ?n\<rfloor> < length seqs" using lo by linarith
  show ?thesis using assms(1) lo hi
    by (simp add: randomChooseSequence_def Let_def)
qed

text \<open>
  Claim C10. Whatever \<open>Math.random()\<close> returns, \<open>GreedyAI.chooseSequence\<close> returns an
  element of \<open>sequences\<close> when the list is not empty and the empty sequence when it is
  empty or absent; so does \<open>RandomAI.chooseSequence\<close>, \<open>Math.random()\<close> returning a
  number of the interval from 0 up to but not including 1.
\<close>

theorem ai_choice:
  "(seqs \<noteq> [] \<longrightarrow> greedyChooseSequence (Some seqs) b bo player rnd \<in> set seqs)
   \<and> greedyChooseSequence (Some []) b bo player rnd = []
   \<and> greedyChooseSequence None b bo player rnd = []
   \<and> (seqs \<noteq> [] \<and> 0 \<le> r \<and> r < 1 \<longrightarrow>
        (\<exists>s \<in> set seqs. randomChooseSequence (Some seqs) r = Some s))
   \<and> randomChooseSequence (Some []) r = Some []
   \<and> randomChooseSequence None r = Some []"
  using greedy_some[of seqs b bo player rnd] random_some[of seqs r]
  by (simp add: greedyChooseSequence_def randomChooseSequence_def)

theorem ai_choice_witness:
  "[missSeq, hitSeq] \<noteq> [] \<and> (0::real) \<le> 1 / 2 \<and> (1::real) / 2 < 1
   \<and> getLegalMoveSequences raceBoard raceOff [6, 1] White = [missSeq, hitSeq]
   \<and> greedyChooseSequence (Some [missSeq, hitSeq]) raceBoard raceOff White constHalf = hitSeq
   \<and> greedyChooseSequence (Some [missSeq, hitSeq]) raceBoard raceOff White constHalf
       \<in> set [missSeq, hitSeq]
   \<and> randomChooseSequence (Some [missSeq, hitSeq]) (1 / 2) = Some hitSeq"
proof -
  have n: "[missSeq, hitSeq] \<noteq> []" by simp
  have r: "(0::real) \<le> 1 / 2" "(1::real) / 2 < 1" by simp_all
  have l: "getLegalMoveSequences raceBoard raceOff [6, 1] White = [missSeq, hitSeq]"
    by code_simp
  have g: "greedyChooseSequence (Some [missSeq, hitSeq]) raceBoard raceOff White constHalf = hitSeq"
    by code_simp
  have c: "randomChooseSequence (Some [missSeq, hitSeq]) (1 / 2) = Some hitSeq"
    by code_simp
  have "greedyChooseSequence (Some [missSeq, hitSeq]) raceBoard raceOff White constHalf
       \<in> set [missSeq, hitSeq]"
    using ai_choice[of "[missSeq, hitSeq]" raceBoard raceOff White constHalf "1 / 2"] n
    by blast
  then show ?thesis using n r l g c by simp
qed

section \<open>Double arithmetic of the accuracy\<close>

lemma rne_err:
  assumes "0 < q"
  shows "\<bar>real_of_int (rne p q) - real_of_int p / real_of_int q\<bar> \<le> 1 / 2"
proof -
  define k where "k = p div q"
  define r where "r = p mod q"
  have r: "0 \<le> r" "r < q" using assms by (simp_all add: r_def)
  have "p = k * q + r" by (simp add: k_def r_def)
  then have "real_of_int p = real_of_int k * real_of_int q + real_of_int r"
    by (metis of_int_add of_int_mult)
  then have pq: "real_of_int p / real_of_int q = real_of_int k + real_of_int r / real_of_int q"
    using assms by (simp add: field_simps)
  have rq: "0 \<le> real_of_int r / real_of_int q" "real_of_int r / real_of_int q < 1"
    using r assms by simp_all
  consider "2 * r < q" | "2 * r > q" | "2 * r = q" by linarith
  then show ?thesis
  proof cases
    case 1
    then have "real_of_int r / real_of_int q < 1 / 2" using assms by (simp add: field_simps)
    moreover have "rne p q = k" using 1 by (simp add: rne_def k_def r_def Let_def)
    ultimately show ?thesis using pq rq by simp
  next
    case 2
    then have "real_of_int r / real_of_int q > 1 / 2" using assms by (simp add: field_simps)
    moreover have "rne p q = k + 1" using 2 by (simp add: rne_def k_def r_def Let_def)
    ultimately show ?thesis using pq rq by simp
  next
    case 3
    then have "real_of_int q = 2 * real_of_int r" by (metis of_int_mult of_int_numeral)
    then have "real_of_int r / real_of_int q = 1 / 2" using assms by simp
    moreover have "rne p q = k \<or> rne p q = k + 1"
      using 3 by (simp add: rne_def k_def r_def Let_def)
    ultimately show ?thesis using pq by auto
  qed
qed

lemma upShift_post: "0 < p \<Longrightarrow> 0 < q \<Longrightarrow> 2 ^ 52 * q \<le> p * 2 ^ upShift p q"
proof (induction p q rule: upShift.induct)
  case (1 p q)
  show ?case
  proof (cases "p < 2 ^ 52 * q")
    case True
    then have u: "upShift p q = Suc (upShift (2 * p) q)"
      using "1.prems" by (subst upShift.simps) simp
    have "2 ^ 52 * q \<le> 2 * p * 2 ^ upShift (2 * p) q"
      using "1.IH" "1.prems" True by simp
    then show ?thesis by (simp add: u mult.assoc)
  next
    case False
    then have "upShift p q = 0" by (subst upShift.simps) simp
    then show ?thesis using False by simp
  qed
qed

lemma downShift_post:
  "0 < q \<Longrightarrow> p < 2 ^ 53 * (q * 2 ^ downShift p q)
     \<and> (2 ^ 52 * q \<le> p \<longrightarrow> 2 ^ 52 * (q * 2 ^ downShift p q) \<le> p)"
proof (induction p q rule: downShift.induct)
  case (1 p q)
  show ?case
  proof (cases "2 ^ 53 * q \<le> p")
    case True
    then have d: "downShift p q = Suc (downShift p (2 * q))"
      using "1.prems" by (subst downShift.simps) simp
    have ih: "p < 2 ^ 53 * (2 * q * 2 ^ downShift p (2 * q))
        \<and> (2 ^ 52 * (2 * q) \<le> p \<longrightarrow> 2 ^ 52 * (2 * q * 2 ^ downShift p (2 * q)) \<le> p)"
      using "1.IH" "1.prems" True by simp
    have "2 ^ 52 * (2 * q) \<le> p" using True by simp
    then show ?thesis using ih by (simp add: d mult.assoc mult.left_commute)
  next
    case False
    then have "downShift p q = 0" by (subst downShift.simps) simp
    then show ?thesis using False by simp
  qed
qed

lemma fl64_err:
  assumes "0 < p" "0 < q"
  shows "\<bar>dval (fl64 p q) - real_of_int p / real_of_int q\<bar>
           \<le> (real_of_int p / real_of_int q) / 2 ^ 53"
    and "0 < snd (fl64 p q)"
proof -
  define i where "i = upShift p q"
  define P where "P = p * 2 ^ i"
  define j where "j = downShift P q"
  define Q where "Q = q * 2 ^ j"
  define m where "m = rne P Q"
  have f: "fl64 p q = (m * 2 ^ j, 2 ^ i)"
    using assms by (simp add: fl64_def Let_def i_def P_def j_def Q_def m_def)
  show "0 < snd (fl64 p q)" by (simp add: f)
  have Ppos: "0 < P" and Qpos: "0 < Q" using assms by (simp_all add: P_def Q_def)
  have "2 ^ 52 * q \<le> P" unfolding P_def i_def using assms by (rule upShift_post)
  then have lo: "2 ^ 52 * Q \<le> P"
    using downShift_post[OF assms(2), of P] by (simp add: Q_def j_def)
  then have "2 ^ 52 * real_of_int Q \<le> real_of_int P"
    by (metis of_int_le_iff of_int_mult of_int_numeral of_int_power)
  then have big: "2 ^ 52 \<le> real_of_int P / real_of_int Q"
    using Qpos by (simp add: field_simps)
  have e: "\<bar>real_of_int m - real_of_int P / real_of_int Q\<bar> \<le> 1 / 2"
    unfolding m_def using Qpos by (rule rne_err)
  have half: "(1::real) / 2 \<le> (real_of_int P / real_of_int Q) / 2 ^ 53"
    using big by simp
  define s :: real where "s = 2 ^ j / 2 ^ i"
  have spos: "0 < s" by (simp add: s_def)
  have dv: "dval (fl64 p q) = real_of_int m * s"
    by (simp add: f dval_def s_def)
  have pq: "real_of_int p / real_of_int q = (real_of_int P / real_of_int Q) * s"
    using assms by (simp add: P_def Q_def s_def field_simps)
  have "\<bar>dval (fl64 p q) - real_of_int p / real_of_int q\<bar>
      = \<bar>real_of_int m - real_of_int P / real_of_int Q\<bar> * s"
  proof -
    have "dval (fl64 p q) - real_of_int p / real_of_int q
        = (real_of_int m - real_of_int P / real_of_int Q) * s"
      unfolding dv pq by (rule left_diff_distrib[symmetric])
    then show ?thesis using spos by (simp only: abs_mult abs_of_pos)
  qed
  also have "\<dots> \<le> ((real_of_int P / real_of_int Q) / 2 ^ 53) * s"
    using e half spos by (intro mult_right_mono) simp_all
  also have "\<dots> = (real_of_int p / real_of_int q) / 2 ^ 53"
    by (simp add: pq)
  finally show "\<bar>dval (fl64 p q) - real_of_int p / real_of_int q\<bar>
           \<le> (real_of_int p / real_of_int q) / 2 ^ 53" .
qed


lemma percent_zero: "0 < t \<Longrightarrow> percent 0 t = 0"
  by (simp add: percent_def fdiv_def fmul_def fl64_def Math_round_def dval_def)

lemma percent_near:
  assumes "0 < t" "t < 2 ^ 32" "g \<le> t"
  shows "\<bar>real_of_int (percent g t) - 100 * real g / real t\<bar> \<le> 1 / 2"
proof (cases "g = 0")
  case True
  then show ?thesis using assms(1) by (simp add: percent_zero)
next
  case False
  define x where "x = real g / real t"
  define u :: real where "u = 1 / 2 ^ 53"
  define d1 where "d1 = fdiv g t"
  define q1 where "q1 = dval d1"
  define d2 where "d2 = fmul d1 100"
  define x2 where "x2 = dval d2"
  define a where "a = percent g t"
  have gpos: "0 < g" using False by simp
  have xpos: "0 < x" and x1: "x \<le> 1" using gpos assms by (simp_all add: x_def)
  have upos: "0 < u" and usmall: "u < 1" by (simp_all add: u_def)
  have e1: "\<bar>q1 - x\<bar> \<le> x * u" and s1: "0 < snd d1"
    using fl64_err[of "int g" "int t"] gpos assms(1)
    by (simp_all add: q1_def d1_def fdiv_def x_def u_def)
  have "x * (1 - u) \<le> q1" using e1 by (simp add: algebra_simps abs_le_iff)
  moreover have "0 < x * (1 - u)" using xpos usmall by simp
  ultimately have q1pos: "0 < q1" by linarith
  have f1: "0 < fst d1"
  proof (rule ccontr)
    assume "\<not> 0 < fst d1"
    then have "real_of_int (fst d1) \<le> 0" by simp
    then have "q1 \<le> 0" using s1 by (simp add: q1_def dval_def divide_le_0_iff)
    then show False using q1pos by simp
  qed
  have y: "real_of_int (fst d1 * 100) / real_of_int (snd d1) = 100 * q1"
    by (simp add: q1_def dval_def)
  have e2: "\<bar>x2 - 100 * q1\<bar> \<le> 100 * q1 * u"
    using fl64_err(1)[of "fst d1 * 100" "snd d1"] f1 s1
    unfolding y by (simp add: x2_def d2_def fmul_def u_def)
  have q1le: "q1 \<le> x * (1 + u)" using e1 by (simp add: algebra_simps abs_le_iff)
  have "100 * q1 * u \<le> 100 * (x * (1 + u)) * u"
    using q1le upos by (simp add: mult_right_mono)
  then have b2: "\<bar>x2 - 100 * q1\<bar> \<le> 100 * (x * (1 + u)) * u" using e2 by linarith
  have b1: "\<bar>100 * q1 - 100 * x\<bar> \<le> 100 * (x * u)" using e1 by simp
  have "\<bar>x2 - 100 * x\<bar> \<le> \<bar>x2 - 100 * q1\<bar> + \<bar>100 * q1 - 100 * x\<bar>" by simp
  then have "\<bar>x2 - 100 * x\<bar> \<le> 100 * (x * (1 + u)) * u + 100 * (x * u)"
    using b1 b2 by linarith
  also have "\<dots> = x * (100 * u * (2 + u))" by (simp add: algebra_simps)
  also have "\<dots> \<le> 1 * (100 * u * (2 + u))"
    using x1 upos by (intro mult_right_mono) simp_all
  also have "\<dots> \<le> 1 / 2 ^ 44" by (simp add: u_def)
  finally have near: "\<bar>x2 - 100 * x\<bar> \<le> 1 / 2 ^ 44" .
  have adef: "a = \<lfloor>x2 + 1 / 2\<rfloor>"
    using assms(1) by (simp add: a_def percent_def Math_round_def x2_def d2_def d1_def)
  have fl: "real_of_int a \<le> x2 + 1 / 2" "x2 + 1 / 2 < real_of_int a + 1"
    unfolding adef by linarith+
  define e :: real where "e = 1 / 2 ^ 44"
  have near': "x2 - 100 * x \<le> e" "- e \<le> x2 - 100 * x"
    using near unfolding e_def abs_le_iff by linarith+
  have "real_of_int a - 100 * x \<le> 1 / 2 + e" "- (1 / 2 + e) \<le> real_of_int a - 100 * x"
    using fl near' by linarith+
  then have "\<bar>real_of_int a - 100 * x\<bar> \<le> 1 / 2 + e"
    unfolding abs_le_iff by linarith
  then have da: "\<bar>real_of_int a - 100 * x\<bar> \<le> 1 / 2 + 1 / 2 ^ 44"
    unfolding e_def .
  define N where "N = 2 * int t * a - 200 * int g"
  have tpos: "0 < real t" using assms(1) by simp
  have Nr: "real_of_int N = 2 * real t * (real_of_int a - 100 * x)"
    using assms(1) by (simp add: N_def x_def algebra_simps)
  have "\<bar>real_of_int N\<bar> = 2 * real t * \<bar>real_of_int a - 100 * x\<bar>"
    unfolding Nr using tpos by (simp add: abs_mult)
  also have "\<dots> \<le> 2 * real t * (1 / 2 + 1 / 2 ^ 44)"
    using da tpos by (intro mult_left_mono) simp_all
  also have "\<dots> = real t + real t * (2 / 2 ^ 44)" by (simp add: algebra_simps)
  also have "\<dots> < real t + 1"
  proof -
    have "real t < 2 ^ 32" using assms(2) by (metis of_nat_less_iff of_nat_numeral of_nat_power)
    then have "real t * (2 / 2 ^ 44) < 2 ^ 32 * (2 / 2 ^ 44)" by (intro mult_strict_right_mono) simp_all
    also have "\<dots> \<le> (1::real)" by simp
    finally show ?thesis by simp
  qed
  finally have "\<bar>real_of_int N\<bar> < real_of_int (int t + 1)" by simp
  then have "\<bar>N\<bar> < int t + 1" by (metis of_int_abs of_int_less_iff)
  then have "\<bar>N\<bar> \<le> int t" by simp
  then have "\<bar>real_of_int N\<bar> \<le> real t" by (metis of_int_abs of_int_le_iff of_int_of_nat_eq)
  then have "2 * real t * \<bar>real_of_int a - 100 * x\<bar> \<le> real t"
    unfolding Nr using tpos by (simp add: abs_mult)
  then have "\<bar>real_of_int a - 100 * x\<bar> \<le> 1 / 2"
    using tpos by (simp add: field_simps)
  then show ?thesis by (simp add: a_def x_def)
qed


text \<open>
  The results of \<open>Math.round((good / turns) * 100)\<close> for some counts. At one of 8 the
  percentage 12.5 goes up to 13; at 23 of 40 the quotient \<open>23 / 40\<close> is a double just
  below 0.575, the product is 57.49999999999999, and the percentage 57.5 goes down to
  57; at 57 of 200 the percentage 28.5 goes down to 28.
\<close>

lemma percent_examples:
  "percent 1 3 = 33" "percent 1 8 = 13" "percent 23 40 = 57" "percent 46 80 = 57"
  "percent 69 120 = 57" "percent 57 200 = 28" "percent 3 3 = 100" "percent 0 0 = 100"
  by code_simp+

section \<open>Ratings and accuracy\<close>

lemma rateMove_bands:
  "0 \<le> d \<Longrightarrow> rateMove (Num d) =
     (if d \<le> 3 then Best else if d \<le> 8 then Good else if d \<le> 18 then Inaccuracy
      else if d \<le> 35 then Mistake else Blunder)"
  by (simp add: rateMove_def THRESHOLDS_def)

lemma analyzeStep_eq:
  "analyzeStep ai (k, t) (grades, wt, wg, bt, bg) =
     (if t_player t = White
      then (grades @ [gradeTurn ai k t], wt + 1,
            (if isGood (gradeTurn ai k t) then wg + 1 else wg), bt, bg)
      else (grades @ [gradeTurn ai k t], wt, wg, bt + 1,
            (if isGood (gradeTurn ai k t) then bg + 1 else bg)))"
  by (simp add: analyzeStep_def Let_def isGood_def)

lemma analyze_fold:
  "fold (analyzeStep ai) kts (grades, wt, wg, bt, bg) =
     (grades @ map (\<lambda>(k, t). gradeTurn ai k t) kts,
      wt + length (filter (\<lambda>(k, t). t_player t = White) kts),
      wg + length (filter (\<lambda>(k, t). t_player t = White \<and> isGood (gradeTurn ai k t)) kts),
      bt + length (filter (\<lambda>(k, t). t_player t \<noteq> White) kts),
      bg + length (filter (\<lambda>(k, t). t_player t \<noteq> White \<and> isGood (gradeTurn ai k t)) kts))"
proof (induction kts arbitrary: grades wt wg bt bg)
  case Nil
  then show ?case by simp
next
  case (Cons kt kts)
  obtain k t where kt: "kt = (k, t)" by (cases kt)
  show ?case
    by (simp add: kt analyzeStep_eq Cons.IH)
qed

lemma g_turn_gradeTurn: "g_turn (gradeTurn ai k t) = t"
  by (simp add: gradeTurn_def Let_def split: prod.splits)

lemma len_filter_map:
  "length (filter P (map f xs)) = length (filter (\<lambda>x. P (f x)) xs)"
  by (induction xs) auto

text \<open>
  Claim C7, as amended. A score differential \<open>d \<ge> 0\<close> is rated best when
  \<open>d \<le> 3\<close>, good when \<open>3 < d \<le> 8\<close>, inaccuracy when \<open>8 < d \<le> 18\<close>, mistake when
  \<open>18 < d \<le> 35\<close> and blunder when \<open>d > 35\<close>; \<open>analyzeGame\<close> grades every turn of the
  history, and its accuracy for a player is \<open>Math.round((good / turns) * 100)\<close> in
  double arithmetic for the number of that player's turns and the number of them rated
  best or good: 100 when the player had no turn, and otherwise, for a history of fewer
  than \<open>2^32\<close> turns, an integer nearest to the percentage of that player's turns rated
  best or good, at most one half away from it.
\<close>

theorem rating_and_accuracy_amended:
  "(0 \<le> d \<longrightarrow> rateMove (Num d) =
     (if d \<le> 3 then Best else if d \<le> 8 then Good else if d \<le> 18 then Inaccuracy
      else if d \<le> 35 then Mistake else Blunder))
   \<and> (analyzeGame history ai = (grades, acc) \<longrightarrow>
        map g_turn grades = history
        \<and> acc_white acc = percent (length (filter isGood (turnsOf White grades)))
                                 (length (turnsOf White grades))
        \<and> acc_black acc = percent (length (filter isGood (turnsOf Black grades)))
                                 (length (turnsOf Black grades))
        \<and> (turnsOf White grades = [] \<longrightarrow> acc_white acc = 100)
        \<and> (turnsOf Black grades = [] \<longrightarrow> acc_black acc = 100)
        \<and> (turnsOf White grades \<noteq> [] \<and> length history < 2 ^ 32 \<longrightarrow>
             \<bar>real_of_int (acc_white acc)
                - 100 * real (length (filter isGood (turnsOf White grades)))
                    / real (length (turnsOf White grades))\<bar> \<le> 1 / 2)
        \<and> (turnsOf Black grades \<noteq> [] \<and> length history < 2 ^ 32 \<longrightarrow>
             \<bar>real_of_int (acc_black acc)
                - 100 * real (length (filter isGood (turnsOf Black grades)))
                    / real (length (turnsOf Black grades))\<bar> \<le> 1 / 2))"
proof -
  let ?kts = "zip [0..<length history] history"
  let ?gs = "map (\<lambda>(k, t). gradeTurn ai k t) ?kts"
  have blk: "\<And>p. (p \<noteq> White) = (p = Black)" by (metis player.exhaust player.distinct(1))
  have tw: "length (turnsOf White ?gs) = length (filter (\<lambda>(k, t). t_player t = White) ?kts)"
    by (simp add: turnsOf_def len_filter_map g_turn_gradeTurn case_prod_unfold comp_def)
  have tb: "length (turnsOf Black ?gs) = length (filter (\<lambda>(k, t). t_player t \<noteq> White) ?kts)"
    by (simp add: turnsOf_def len_filter_map g_turn_gradeTurn case_prod_unfold comp_def blk)
  have gw: "length (filter isGood (turnsOf White ?gs)) =
      length (filter (\<lambda>(k, t). t_player t = White \<and> isGood (gradeTurn ai k t)) ?kts)"
    by (simp add: turnsOf_def len_filter_map g_turn_gradeTurn case_prod_unfold comp_def conj_commute)
  have gb: "length (filter isGood (turnsOf Black ?gs)) =
      length (filter (\<lambda>(k, t). t_player t \<noteq> White \<and> isGood (gradeTurn ai k t)) ?kts)"
    by (simp add: turnsOf_def len_filter_map g_turn_gradeTurn case_prod_unfold comp_def conj_commute blk)
  have hist: "map g_turn ?gs = history"
    by (simp add: g_turn_gradeTurn case_prod_unfold comp_def map_snd_zip)
  have res: "analyzeGame history ai =
     (?gs, \<lparr>acc_white = percent (length (filter isGood (turnsOf White ?gs))) (length (turnsOf White ?gs)),
            acc_black = percent (length (filter isGood (turnsOf Black ?gs))) (length (turnsOf Black ?gs))\<rparr>)"
    by (simp add: analyzeGame_def analyze_fold tw tb gw gb)
  have near: "\<bar>real_of_int (percent (length (filter isGood (turnsOf p ?gs))) (length (turnsOf p ?gs)))
                - 100 * real (length (filter isGood (turnsOf p ?gs)))
                    / real (length (turnsOf p ?gs))\<bar> \<le> 1 / 2"
    if "turnsOf p ?gs \<noteq> []" "length history < 2 ^ 32" for p
  proof (rule percent_near)
    show "0 < length (turnsOf p ?gs)" using that(1) by simp
    have "length (turnsOf p ?gs) \<le> length ?gs"
      unfolding turnsOf_def by (rule length_filter_le)
    moreover have "length ?gs = length history" by simp
    ultimately show "length (turnsOf p ?gs) < 2 ^ 32" using that(2) by linarith
    show "length (filter isGood (turnsOf p ?gs)) \<le> length (turnsOf p ?gs)" by simp
  qed
  have zero: "percent g (length (xs::grade list)) = 100" if "xs = []" for g xs
    using that by (simp add: percent_def)
  have part2: "map g_turn grades = history
        \<and> acc_white acc = percent (length (filter isGood (turnsOf White grades)))
                                 (length (turnsOf White grades))
        \<and> acc_black acc = percent (length (filter isGood (turnsOf Black grades)))
                                 (length (turnsOf Black grades))
        \<and> (turnsOf White grades = [] \<longrightarrow> acc_white acc = 100)
        \<and> (turnsOf Black grades = [] \<longrightarrow> acc_black acc = 100)
        \<and> (turnsOf White grades \<noteq> [] \<and> length history < 2 ^ 32 \<longrightarrow>
             \<bar>real_of_int (acc_white acc)
                - 100 * real (length (filter isGood (turnsOf White grades)))
                    / real (length (turnsOf White grades))\<bar> \<le> 1 / 2)
        \<and> (turnsOf Black grades \<noteq> [] \<and> length history < 2 ^ 32 \<longrightarrow>
             \<bar>real_of_int (acc_black acc)
                - 100 * real (length (filter isGood (turnsOf Black grades)))
                    / real (length (turnsOf Black grades))\<bar> \<le> 1 / 2)"
    if eq: "analyzeGame history ai = (grades, acc)"
  proof -
    have g: "grades = ?gs" using eq res by simp
    have aw: "acc_white acc = percent (length (filter isGood (turnsOf White grades)))
                                 (length (turnsOf White grades))"
      and ab: "acc_black acc = percent (length (filter isGood (turnsOf Black grades)))
                                 (length (turnsOf Black grades))"
      using eq res by (auto simp: g)
    show ?thesis
      unfolding aw ab unfolding g
      using hist near[of White] near[of Black] zero by blast
  qed
  show ?thesis using rateMove_bands[of d] part2 by blast
qed

theorem rating_and_accuracy_witness:
  "(0::real) \<le> 3 \<and> rateMove (Num 3) = Best
   \<and> length raceHistory < 2 ^ 32
   \<and> map g_turn (fst (analyzeGame raceHistory greedyNoNoise)) = raceHistory
   \<and> map g_rating (fst (analyzeGame raceHistory greedyNoNoise)) = [Best, Inaccuracy, Inaccuracy]
   \<and> acc_white (snd (analyzeGame raceHistory greedyNoNoise)) = percent 1 3
   \<and> acc_white (snd (analyzeGame raceHistory greedyNoNoise)) = 33
   \<and> acc_black (snd (analyzeGame raceHistory greedyNoNoise)) = 100
   \<and> \<bar>real_of_int (acc_white (snd (analyzeGame raceHistory greedyNoNoise)))
         - 100 * real 1 / real 3\<bar> \<le> 1 / 2"
proof -
  let ?g = "fst (analyzeGame raceHistory greedyNoNoise)"
  let ?a = "snd (analyzeGame raceHistory greedyNoNoise)"
  have e: "analyzeGame raceHistory greedyNoNoise = (?g, ?a)" by simp
  have d: "(0::real) \<le> 3" by simp
  have l: "length raceHistory < 2 ^ 32" by (simp add: raceHistory_def)
  have v: "length (turnsOf White ?g) = 3" "length (filter isGood (turnsOf White ?g)) = 1"
    "turnsOf Black ?g = []" "map g_rating ?g = [Best, Inaccuracy, Inaccuracy]"
    by code_simp+
  have w: "turnsOf White ?g \<noteq> []" using v(1) by auto
  have p: "percent 1 3 = 33" by code_simp
  note t = rating_and_accuracy_amended[of 3 raceHistory greedyNoNoise ?g ?a]
  have t1: "rateMove (Num 3) = Best" using t d by simp
  have t2: "map g_turn ?g = raceHistory
      \<and> acc_white ?a = percent (length (filter isGood (turnsOf White ?g))) (length (turnsOf White ?g))
      \<and> acc_black ?a = 100
      \<and> \<bar>real_of_int (acc_white ?a)
           - 100 * real (length (filter isGood (turnsOf White ?g)))
               / real (length (turnsOf White ?g))\<bar> \<le> 1 / 2"
    using t[THEN conjunct2, THEN mp, OF e] v(3) w l by blast
  have a1: "map g_turn ?g = raceHistory" using t2 by blast
  have a2: "acc_white ?a = percent 1 3" using t2 unfolding v(1) v(2) by blast
  have a3: "acc_white ?a = 33" using a2 p by simp
  have a4: "acc_black ?a = 100" using t2 by blast
  have a5: "\<bar>real_of_int (acc_white ?a) - 100 * real 1 / real 3\<bar> \<le> 1 / 2"
    using t2 unfolding v(1) v(2) by blast
  show ?thesis by (intro conjI d t1 l a1 v(4) a2 a3 a4 a5)
qed

text \<open>
  Claim C7 as stated fails where the percentage is not a whole number: of White's three
  turns in \<open>raceHistory\<close> one is rated best and two are rated inaccuracy; the accuracy
  is 33, the percentage is a third of 100.
\<close>

theorem accuracy_counterexample:
  "map t_player (map g_turn (fst (analyzeGame raceHistory greedyNoNoise)))
     = [White, White, White]
   \<and> map g_rating (fst (analyzeGame raceHistory greedyNoNoise)) = [Best, Inaccuracy, Inaccuracy]
   \<and> acc_white (snd (analyzeGame raceHistory greedyNoNoise)) = 33
   \<and> real_of_int (acc_white (snd (analyzeGame raceHistory greedyNoNoise)))
       \<noteq> 100 * real (length (filter isGood (turnsOf White (fst (analyzeGame raceHistory greedyNoNoise)))))
           / real (length (turnsOf White (fst (analyzeGame raceHistory greedyNoNoise))))"
  by code_simp

section \<open>Checker counts are preserved\<close>

lemma numB_iff: "numB b \<longleftrightarrow> 26 \<le> length b \<and> (\<forall>i < 26. b ! i \<noteq> None)"
  by (auto simp: numB_def list_all_length)

lemma sum_upd:
  "i < length xs \<Longrightarrow>
   sum_list (map f (xs[i := x])) = sum_list (map f xs) - f (xs ! i) + (f x :: int)"
proof (induction xs arbitrary: i)
  case Nil
  then show ?case by simp
next
  case (Cons a xs)
  then show ?case by (cases i) auto
qed

lemma js_add_simps:
  "js_add None y = None" "js_add x None = None" "js_add (Some a) (Some c) = Some (a + c)"
  by (simp_all add: js_add_def split: option.splits)

lemma fold_js_add:
  "fold (\<lambda>i acc. js_add acc (f i)) is (Some a) =
     (if \<forall>i \<in> set is. f i \<noteq> None then Some (a + (\<Sum>i \<leftarrow> is. the (f i))) else None)"
proof (induction "is" arbitrary: a)
  case Nil
  then show ?case by simp
next
  case (Cons i "is")
  have none: "\<And>xs. fold (\<lambda>i acc. js_add acc (f i)) xs None = None"
  proof -
    fix xs show "fold (\<lambda>i acc. js_add acc (f i)) xs None = None"
      by (induction xs) (simp_all add: js_add_simps)
  qed
  show ?case
  proof (cases "f i")
    case None
    then show ?thesis by (simp add: js_add_simps none)
  next
    case (Some v)
    then show ?thesis by (simp add: js_add_simps Cons.IH add.assoc)
  qed
qed

lemma upto_as_nats: "[0..23] = map int [0..<24]"
  by (simp add: upto_rec1 upt_rec numeral_eq_Suc)

lemma onBoard_Some:
  assumes "onBoard p b = Some n"
  shows "\<forall>i < 24. i < length b \<and> b ! i \<noteq> None"
proof -
  have "\<forall>i \<in> set [0..23]. ownAt p (cellAt b i) \<noteq> None"
    using assms unfolding onBoard_def fold_js_add by (simp split: if_splits)
  then have "\<forall>i \<in> set [0..<24]. cellAt b (int i) \<noteq> None"
    unfolding upto_as_nats by (auto simp: ownAt_def split: if_splits)
  then show ?thesis
    by (auto simp: cellAt_def split: if_splits)
qed

lemma counts_numB:
  assumes "checkerCount White b bo = Some n" "checkerCount Black b bo = Some k"
  shows "numB b"
proof -
  obtain w where w: "onBoard White b = Some w"
    using assms(1) by (auto simp: checkerCount_def js_add_def split: option.splits)
  have a: "\<forall>i < 24. i < length b \<and> b ! i \<noteq> None" using onBoard_Some[OF w] .
  have "cellAt b 24 \<noteq> None"
    using assms(1) by (auto simp: checkerCount_def js_add_def barCount_def WHITE_BAR_def split: option.splits)
  then have b24: "24 < length b \<and> b ! 24 \<noteq> None" by (auto simp: cellAt_def split: if_splits)
  have "cellAt b 25 \<noteq> None"
    using assms(2) by (auto simp: checkerCount_def js_add_def barCount_def BLACK_BAR_def split: option.splits)
  then have b25: "25 < length b \<and> b ! 25 \<noteq> None" by (auto simp: cellAt_def split: if_splits)
  have "\<forall>i < 26. b ! i \<noteq> None"
  proof (intro allI impI)
    fix i :: nat assume "i < 26"
    then consider "i < 24" | "i = 24" | "i = 25" by linarith
    then show "b ! i \<noteq> None" using a b24 b25 by cases auto
  qed
  then show ?thesis using b25 by (simp add: numB_iff)
qed

lemma cellAt_numB: "numB b \<Longrightarrow> 0 \<le> i \<Longrightarrow> i < 26 \<Longrightarrow> cellAt b i = Some (the (b ! nat i))"
  by (auto simp: numB_iff cellAt_def)

lemma onBoard_numB:
  assumes "numB b"
  shows "onBoard p b = Some (pts p b)"
proof -
  have len: "24 \<le> length b" using assms by (simp add: numB_iff)
  have "\<forall>i \<in> set [0..23]. ownAt p (cellAt b i) \<noteq> None"
    using assms by (auto simp: cellAt_numB ownAt_def)
  moreover have "map (\<lambda>i. the (ownAt p (cellAt b i))) [0..23] = map (\<lambda>c. own p (the c)) (take 24 b)"
  proof (rule nth_equalityI)
    show "length (map (\<lambda>i. the (ownAt p (cellAt b i))) [0..23]) = length (map (\<lambda>c. own p (the c)) (take 24 b))"
      using len by simp
  next
    fix i assume "i < length (map (\<lambda>i. the (ownAt p (cellAt b i))) [0..23])"
    then have i: "i < 24" by simp
    then have "[0..23] ! i = int i" by (simp add: upto_as_nats)
    then show "map (\<lambda>i. the (ownAt p (cellAt b i))) [0..23] ! i = map (\<lambda>c. own p (the c)) (take 24 b) ! i"
      using i len assms by (simp add: cellAt_numB ownAt_def own_def)
  qed
  ultimately show ?thesis
    unfolding onBoard_def fold_js_add pts_def by simp
qed

lemma count_numB:
  "numB b \<Longrightarrow> checkerCount p b bo = Some (total p b bo)"
  by (simp add: checkerCount_def onBoard_numB barCount_def cellAt_numB WHITE_BAR_def BLACK_BAR_def
        js_add_def total_def)

lemma bset_numB: "numB b \<Longrightarrow> 0 \<le> i \<Longrightarrow> i < 26 \<Longrightarrow> bset b i v = b[nat i := v]"
  by (auto simp: bset_def numB_iff)

lemma inc_numB:
  "numB b \<Longrightarrow> 0 \<le> i \<Longrightarrow> i < 26 \<Longrightarrow> inc b i = b[nat i := Some (the (b ! nat i) + 1)]"
  by (simp add: inc_def bset_numB cellAt_numB)

lemma dec_numB:
  "numB b \<Longrightarrow> 0 \<le> i \<Longrightarrow> i < 26 \<Longrightarrow> dec b i = b[nat i := Some (the (b ! nat i) - 1)]"
  by (simp add: dec_def bset_numB cellAt_numB)

lemma numB_upd: "numB b \<Longrightarrow> numB (b[k := Some x])"
  by (cases "k < length b") (auto simp: numB_iff nth_list_update)

lemma pts_upd_point:
  "numB b \<Longrightarrow> k < 24 \<Longrightarrow> pts p (b[k := Some x]) = pts p b - own p (the (b ! k)) + own p x"
  by (simp add: pts_def numB_iff take_update_swap sum_upd)

lemma pts_upd_bar: "24 \<le> k \<Longrightarrow> pts p (b[k := c]) = pts p b"
  by (simp add: pts_def)

lemma in_whiteRegular:
  "m \<in> set (whiteRegularMoves b d) \<longleftrightarrow>
     (\<exists>i. 0 \<le> i \<and> i \<le> 23 \<and> \<not> js_le (cellAt b i) 0 \<and> i - d \<ge> 0 \<and> \<not> isBlocked b (i - d) White
          \<and> m = mkMove i (i - d) d (js_eq (cellAt b (i - d)) (- 1)))"
  unfolding whiteRegularMoves_def
  by (auto simp del: upto_rec_numeral simp: Let_def split: if_splits)

lemma in_blackRegular:
  "m \<in> set (blackRegularMoves b d) \<longleftrightarrow>
     (\<exists>i. 0 \<le> i \<and> i \<le> 23 \<and> \<not> js_ge (cellAt b i) 0 \<and> i + d \<le> 23 \<and> \<not> isBlocked b (i + d) Black
          \<and> m = mkMove i (i + d) d (js_eq (cellAt b (i + d)) 1))"
  unfolding blackRegularMoves_def
  by (auto simp del: upto_rec_numeral simp: Let_def split: if_splits)

lemma in_whiteBearOff:
  "m \<in> set (whiteBearOffMoves b d) \<Longrightarrow>
     (\<exists>i. 0 \<le> i \<and> i \<le> 5 \<and> \<not> js_le (cellAt b i) 0 \<and> m = mkMove i BEAR_OFF d False)"
  unfolding whiteBearOffMoves_def
  by (auto simp del: upto_rec_numeral simp: Let_def split: if_splits)

lemma in_blackBearOff:
  "m \<in> set (blackBearOffMoves b d) \<Longrightarrow>
     (\<exists>i. 18 \<le> i \<and> i \<le> 23 \<and> \<not> js_ge (cellAt b i) 0 \<and> m = mkMove i BEAR_OFF d False)"
  unfolding blackBearOffMoves_def
  by (auto simp del: upto_rec_numeral simp: Let_def split: if_splits)

lemma numB_len: "numB b \<Longrightarrow> 26 \<le> length b"
  by (simp add: numB_iff)

lemmas brd = inc_numB dec_numB bset_numB numB_upd cellAt_numB nth_list_update pts_upd_point
  pts_upd_bar total_def own_def js_eq_def offCount_def

lemma apply_white_point:
  assumes "numB b" "0 \<le> f" "f \<le> 23" "the (b ! nat f) > 0" "0 \<le> t" "t < f"
    "the (b ! nat t) \<ge> - 1" "mv_from m = f" "mv_to m = t"
    "applyMoveToBoard b bo m White = (b', bo')"
  shows "numB b' \<and> total White b' bo' = total White b bo \<and> total Black b' bo' = total Black b bo"
proof -
  have len: "26 \<le> length b" using assms(1) by (rule numB_len)
  have nf: "nat f < 24" "nat t < 24" "nat t \<noteq> nat f" using assms by auto
  show ?thesis
  proof (cases "the (b ! nat t) = - 1")
    case True
    then show ?thesis using assms len nf
      by (auto simp: applyMoveToBoard_def Let_def WHITE_BAR_def BLACK_BAR_def BEAR_OFF_def brd)
  next
    case False
    then show ?thesis using assms len nf
      by (auto simp: applyMoveToBoard_def Let_def WHITE_BAR_def BLACK_BAR_def BEAR_OFF_def brd)
  qed
qed

lemma apply_white_bar:
  assumes "numB b" "the (b ! 24) > 0" "0 \<le> t" "t \<le> 23"
    "the (b ! nat t) \<ge> - 1" "mv_from m = 24" "mv_to m = t"
    "applyMoveToBoard b bo m White = (b', bo')"
  shows "numB b' \<and> total White b' bo' = total White b bo \<and> total Black b' bo' = total Black b bo"
proof -
  have len: "26 \<le> length b" using assms(1) by (rule numB_len)
  have nf: "nat t < 24" using assms by auto
  show ?thesis
  proof (cases "the (b ! nat t) = - 1")
    case True
    then show ?thesis using assms len nf
      by (auto simp: applyMoveToBoard_def Let_def WHITE_BAR_def BLACK_BAR_def BEAR_OFF_def brd)
  next
    case False
    then show ?thesis using assms len nf
      by (auto simp: applyMoveToBoard_def Let_def WHITE_BAR_def BLACK_BAR_def BEAR_OFF_def brd)
  qed
qed

lemma apply_white_off:
  assumes "numB b" "0 \<le> f" "f \<le> 23" "the (b ! nat f) > 0" "mv_from m = f" "mv_to m = 26"
    "applyMoveToBoard b bo m White = (b', bo')"
  shows "numB b' \<and> total White b' bo' = total White b bo \<and> total Black b' bo' = total Black b bo"
proof -
  have len: "26 \<le> length b" using assms(1) by (rule numB_len)
  have nf: "nat f < 24" using assms by auto
  show ?thesis using assms len nf
    by (auto simp: applyMoveToBoard_def Let_def WHITE_BAR_def BLACK_BAR_def BEAR_OFF_def brd)
qed

lemma apply_black_point:
  assumes "numB b" "0 \<le> f" "f < t" "the (b ! nat f) < 0" "t \<le> 23"
    "the (b ! nat t) \<le> 1" "mv_from m = f" "mv_to m = t"
    "applyMoveToBoard b bo m Black = (b', bo')"
  shows "numB b' \<and> total White b' bo' = total White b bo \<and> total Black b' bo' = total Black b bo"
proof -
  have len: "26 \<le> length b" using assms(1) by (rule numB_len)
  have nf: "nat f < 24" "nat t < 24" "nat t \<noteq> nat f" using assms by auto
  show ?thesis
  proof (cases "the (b ! nat t) = 1")
    case True
    then show ?thesis using assms len nf
      by (auto simp: applyMoveToBoard_def Let_def WHITE_BAR_def BLACK_BAR_def BEAR_OFF_def brd)
  next
    case False
    then show ?thesis using assms len nf
      by (auto simp: applyMoveToBoard_def Let_def WHITE_BAR_def BLACK_BAR_def BEAR_OFF_def brd)
  qed
qed

lemma apply_black_bar:
  assumes "numB b" "the (b ! 25) > 0" "0 \<le> t" "t \<le> 23"
    "the (b ! nat t) \<le> 1" "mv_from m = 25" "mv_to m = t"
    "applyMoveToBoard b bo m Black = (b', bo')"
  shows "numB b' \<and> total White b' bo' = total White b bo \<and> total Black b' bo' = total Black b bo"
proof -
  have len: "26 \<le> length b" using assms(1) by (rule numB_len)
  have nf: "nat t < 24" using assms by auto
  show ?thesis
  proof (cases "the (b ! nat t) = 1")
    case True
    then show ?thesis using assms len nf
      by (auto simp: applyMoveToBoard_def Let_def WHITE_BAR_def BLACK_BAR_def BEAR_OFF_def brd)
  next
    case False
    then show ?thesis using assms len nf
      by (auto simp: applyMoveToBoard_def Let_def WHITE_BAR_def BLACK_BAR_def BEAR_OFF_def brd)
  qed
qed

lemma apply_black_off:
  assumes "numB b" "0 \<le> f" "f \<le> 23" "the (b ! nat f) < 0" "mv_from m = f" "mv_to m = 26"
    "applyMoveToBoard b bo m Black = (b', bo')"
  shows "numB b' \<and> total White b' bo' = total White b bo \<and> total Black b' bo' = total Black b bo"
proof -
  have len: "26 \<le> length b" using assms(1) by (rule numB_len)
  have nf: "nat f < 24" using assms by auto
  show ?thesis using assms len nf
    by (auto simp: applyMoveToBoard_def Let_def WHITE_BAR_def BLACK_BAR_def BEAR_OFF_def brd)
qed

lemma moves_shape_white:
  assumes "numB b" "1 \<le> d" "m \<in> set (singleDieMoves b bo d White)"
  shows "(mv_from m = 24 \<and> the (b ! 24) > 0 \<and> 0 \<le> mv_to m \<and> mv_to m \<le> 23
            \<and> the (b ! nat (mv_to m)) \<ge> - 1)
       \<or> (0 \<le> mv_from m \<and> mv_from m \<le> 23 \<and> the (b ! nat (mv_from m)) > 0
            \<and> (mv_to m = 26
               \<or> (0 \<le> mv_to m \<and> mv_to m < mv_from m \<and> the (b ! nat (mv_to m)) \<ge> - 1)))"
proof (cases "js_gt (cellAt b WHITE_BAR) 0")
  case True
  then show ?thesis using assms
    by (auto simp: singleDieMoves_def mkMove_def isBlocked_def cellAt_numB js_gt_def js_le_def
          WHITE_BAR_def BEAR_OFF_def Let_def split: if_splits)
next
  case False
  then have "m \<in> set (whiteBearOffMoves b d) \<or> m \<in> set (whiteRegularMoves b d)"
    using assms(3) by (auto simp: singleDieMoves_def split: if_splits)
  then show ?thesis
  proof
    assume "m \<in> set (whiteBearOffMoves b d)"
    then obtain i where "0 \<le> i" "i \<le> 5" "\<not> js_le (cellAt b i) 0" "m = mkMove i BEAR_OFF d False"
      using in_whiteBearOff by blast
    then show ?thesis using assms(1)
      by (simp add: mkMove_def BEAR_OFF_def cellAt_numB js_le_def)
  next
    assume "m \<in> set (whiteRegularMoves b d)"
    then obtain i where "0 \<le> i" "i \<le> 23" "\<not> js_le (cellAt b i) 0" "i - d \<ge> 0"
      "\<not> isBlocked b (i - d) White" "m = mkMove i (i - d) d (js_eq (cellAt b (i - d)) (- 1))"
      using in_whiteRegular by blast
    then show ?thesis using assms(1,2)
      by (simp add: mkMove_def BEAR_OFF_def cellAt_numB js_le_def isBlocked_def)
  qed
qed

lemma moves_shape_black:
  assumes "numB b" "1 \<le> d" "m \<in> set (singleDieMoves b bo d Black)"
  shows "(mv_from m = 25 \<and> the (b ! 25) > 0 \<and> 0 \<le> mv_to m \<and> mv_to m \<le> 23
            \<and> the (b ! nat (mv_to m)) \<le> 1)
       \<or> (0 \<le> mv_from m \<and> mv_from m \<le> 23 \<and> the (b ! nat (mv_from m)) < 0
            \<and> (mv_to m = 26
               \<or> (mv_from m < mv_to m \<and> mv_to m \<le> 23 \<and> the (b ! nat (mv_to m)) \<le> 1)))"
proof (cases "js_gt (cellAt b BLACK_BAR) 0")
  case True
  then show ?thesis using assms
    by (auto simp: singleDieMoves_def mkMove_def isBlocked_def cellAt_numB js_gt_def js_ge_def
          BLACK_BAR_def BEAR_OFF_def Let_def split: if_splits)
next
  case False
  then have "m \<in> set (blackBearOffMoves b d) \<or> m \<in> set (blackRegularMoves b d)"
    using assms(3) by (auto simp: singleDieMoves_def split: if_splits)
  then show ?thesis
  proof
    assume "m \<in> set (blackBearOffMoves b d)"
    then obtain i where "18 \<le> i" "i \<le> 23" "\<not> js_ge (cellAt b i) 0" "m = mkMove i BEAR_OFF d False"
      using in_blackBearOff by blast
    then show ?thesis using assms(1)
      by (simp add: mkMove_def BEAR_OFF_def cellAt_numB js_ge_def)
  next
    assume "m \<in> set (blackRegularMoves b d)"
    then obtain i where "0 \<le> i" "i \<le> 23" "\<not> js_ge (cellAt b i) 0" "i + d \<le> 23"
      "\<not> isBlocked b (i + d) Black" "m = mkMove i (i + d) d (js_eq (cellAt b (i + d)) 1)"
      using in_blackRegular by blast
    then show ?thesis using assms(1,2)
      by (simp add: mkMove_def BEAR_OFF_def cellAt_numB js_ge_def isBlocked_def)
  qed
qed

text \<open>
  Claim C1. When each player's checkers (on the points 0 .. 23, on the bar and borne
  off) number 15, then after \<open>applyMoveToBoard\<close> with any move that
  \<open>singleDieMoves\<close> returns for a die (a number from 1 up) each player's checkers
  number 15 again.
\<close>

theorem checker_count_preserved:
  assumes "checkerCount White b bo = Some 15" and "checkerCount Black b bo = Some 15"
    and "1 \<le> d"
    and "m \<in> set (singleDieMoves b bo d player)"
    and "applyMoveToBoard b bo m player = (b', bo')"
  shows "checkerCount White b' bo' = Some 15 \<and> checkerCount Black b' bo' = Some 15"
proof -
  have nb: "numB b" using assms(1,2) by (rule counts_numB)
  have tw: "total White b bo = 15" using assms(1) count_numB[OF nb, of White bo] by simp
  have tb: "total Black b bo = 15" using assms(2) count_numB[OF nb, of Black bo] by simp
  have "numB b' \<and> total White b' bo' = total White b bo \<and> total Black b' bo' = total Black b bo"
  proof (cases player)
    case White
    then show ?thesis
      using moves_shape_white[OF nb assms(3), of m bo] assms(4,5)
        apply_white_point[OF nb, of "mv_from m" "mv_to m" m bo b' bo']
        apply_white_bar[OF nb, of "mv_to m" m bo b' bo']
        apply_white_off[OF nb, of "mv_from m" m bo b' bo']
      by blast
  next
    case Black
    then show ?thesis
      using moves_shape_black[OF nb assms(3), of m bo] assms(4,5)
        apply_black_point[OF nb, of "mv_from m" "mv_to m" m bo b' bo']
        apply_black_bar[OF nb, of "mv_to m" m bo b' bo']
        apply_black_off[OF nb, of "mv_from m" m bo b' bo']
      by blast
  qed
  then show ?thesis using tw tb by (simp add: count_numB)
qed

theorem checker_count_preserved_witness:
  "checkerCount White initialBoard \<lparr>white = 0, black = 0\<rparr> = Some 15
   \<and> checkerCount Black initialBoard \<lparr>white = 0, black = 0\<rparr> = Some 15
   \<and> (1::int) \<le> 3
   \<and> mkMove 23 20 3 False \<in> set (singleDieMoves initialBoard \<lparr>white = 0, black = 0\<rparr> 3 White)
   \<and> applyMoveToBoard initialBoard \<lparr>white = 0, black = 0\<rparr> (mkMove 23 20 3 False) White
       = (bset (bset initialBoard 23 (Some 1)) 20 (Some 1), \<lparr>white = 0, black = 0\<rparr>)
   \<and> checkerCount White (bset (bset initialBoard 23 (Some 1)) 20 (Some 1))
         \<lparr>white = 0, black = 0\<rparr> = Some 15
   \<and> checkerCount Black (bset (bset initialBoard 23 (Some 1)) 20 (Some 1))
         \<lparr>white = 0, black = 0\<rparr> = Some 15"
proof -
  have w: "checkerCount White initialBoard \<lparr>white = 0, black = 0\<rparr> = Some 15"
    and k: "checkerCount Black initialBoard \<lparr>white = 0, black = 0\<rparr> = Some 15"
    by code_simp+
  have d: "(1::int) \<le> 3" by simp
  have m: "mkMove 23 20 3 False
      \<in> set (singleDieMoves initialBoard \<lparr>white = 0, black = 0\<rparr> 3 White)"
    by code_simp
  have a: "applyMoveToBoard initialBoard \<lparr>white = 0, black = 0\<rparr> (mkMove 23 20 3 False) White
       = (bset (bset initialBoard 23 (Some 1)) 20 (Some 1), \<lparr>white = 0, black = 0\<rparr>)"
    by code_simp
  show ?thesis using checker_count_preserved[OF w k d m a] w k d m a by simp
qed

section \<open>Maximal sequences and the forced pass\<close>

lemma forDice_eq_aux:
  "i \<le> length ds \<Longrightarrow> set tried = set (take i ds) \<Longrightarrow>
   forDice body ds i tried =
     concat (map (\<lambda>j. let d = ds ! j in if d \<in> set (take j ds) then [] else body j d)
                 [i..<length ds])"
proof (induction "length ds - i" arbitrary: i tried)
  case 0
  then have "i = length ds" by simp
  then show ?case by (subst forDice.simps) simp
next
  case (Suc n)
  then have lt: "i < length ds" by simp
  have n: "n = length ds - Suc i" using Suc.hyps(2) by simp
  have up: "[i..<length ds] = i # [Suc i..<length ds]" using lt by (simp add: upt_rec)
  have tk: "set (take (Suc i) ds) = insert (ds ! i) (set (take i ds))"
    using lt by (simp add: take_Suc_conv_app_nth)
  show ?case
  proof (cases "ds ! i \<in> set tried")
    case True
    then have "set tried = set (take (Suc i) ds)" using Suc.prems(2) tk by auto
    then have "forDice body ds (Suc i) tried =
        concat (map (\<lambda>j. let d = ds ! j in if d \<in> set (take j ds) then [] else body j d)
                 [Suc i..<length ds])"
      using Suc.hyps(1)[OF n] lt by simp
    then show ?thesis using True lt Suc.prems(2)
      by (subst forDice.simps) (simp add: up Let_def)
  next
    case False
    have "set (tried @ [ds ! i]) = set (take (Suc i) ds)" using Suc.prems(2) tk by auto
    then have "forDice body ds (Suc i) (tried @ [ds ! i]) =
        concat (map (\<lambda>j. let d = ds ! j in if d \<in> set (take j ds) then [] else body j d)
                 [Suc i..<length ds])"
      using Suc.hyps(1)[OF n] lt by simp
    then show ?thesis using False lt Suc.prems(2)
      by (subst forDice.simps) (simp add: up Let_def)
  qed
qed

lemma forDice_eq:
  "forDice body ds 0 [] =
     concat (map (\<lambda>j. let d = ds ! j in if d \<in> set (take j ds) then [] else body j d)
                 [0..<length ds])"
  by (rule forDice_eq_aux) simp_all

lemma generateAll_loop:
  "generateAll b bo diceLeft player prefix =
     (if length diceLeft = 0 then [prefix]
      else
        let sequences =
          forDice (\<lambda>i d. concat (map (\<lambda>m.
                   case applyMoveToBoard b bo m player of
                     (nb, nbo) \<Rightarrow> generateAll nb nbo (removeAt i diceLeft) player (prefix @ [m]))
                 (singleDieMoves b bo d player))) diceLeft 0 []
        in if length sequences = 0 then [prefix] else sequences)"
  by (subst generateAll.simps) (simp add: forDice_eq Let_def)


lemma first_index:
  "d \<in> set ds \<Longrightarrow>
   \<exists>i < length ds. ds ! i = d \<and> d \<notin> set (take i ds) \<and> removeAt i ds = remove1 d ds"
proof (induction ds)
  case Nil
  then show ?case by simp
next
  case (Cons a ds)
  show ?case
  proof (cases "a = d")
    case True
    then have "0 < length (a # ds) \<and> (a # ds) ! 0 = d \<and> d \<notin> set (take 0 (a # ds))
        \<and> removeAt 0 (a # ds) = remove1 d (a # ds)"
      by (simp add: removeAt_def)
    then show ?thesis by blast
  next
    case False
    then have "d \<in> set ds" using Cons.prems by simp
    then obtain i where i: "i < length ds" "ds ! i = d" "d \<notin> set (take i ds)"
        "removeAt i ds = remove1 d ds"
      using Cons.IH by blast
    then have "Suc i < length (a # ds) \<and> (a # ds) ! Suc i = d \<and> d \<notin> set (take (Suc i) (a # ds))
        \<and> removeAt (Suc i) (a # ds) = remove1 d (a # ds)"
      using False by (simp add: removeAt_def)
    then show ?thesis by blast
  qed
qed

lemma generateAll_eq:
  "generateAll b bo ds p pre =
     (if ds = [] then [pre] else if genBody b bo ds p pre = [] then [pre] else genBody b bo ds p pre)"
  by (subst generateAll.simps) (simp add: genBody_def Let_def)

lemma in_genBody:
  "s \<in> set (genBody b bo ds p pre) \<longleftrightarrow>
     (\<exists>i < length ds. ds ! i \<notin> set (take i ds) \<and>
        (\<exists>m \<in> set (singleDieMoves b bo (ds ! i) p).
           s \<in> set (generateAll (fst (applyMoveToBoard b bo m p)) (snd (applyMoveToBoard b bo m p))
                     (removeAt i ds) p (pre @ [m]))))"
  by (auto simp: genBody_def Let_def case_prod_unfold)

lemma generateAll_nonempty: "generateAll b bo ds p pre \<noteq> []"
  by (simp add: generateAll_eq)

lemma removeAt_remove1:
  "i < length ds \<Longrightarrow> ds ! i \<notin> set (take i ds) \<Longrightarrow> removeAt i ds = remove1 (ds ! i) ds"
proof (induction ds arbitrary: i)
  case Nil
  then show ?case by simp
next
  case (Cons a ds)
  show ?case
  proof (cases i)
    case 0
    then show ?thesis by (simp add: removeAt_def)
  next
    case (Suc j)
    then have "removeAt j ds = remove1 (ds ! j) ds" "a \<noteq> ds ! j"
      using Cons by auto
    then show ?thesis using Suc by (simp add: removeAt_def)
  qed
qed

lemma generated_legal:
  "s \<in> set (generateAll b bo ds p pre) \<Longrightarrow> \<exists>t. s = pre @ t \<and> legalSeq b bo ds p t"
proof (induction "length ds" arbitrary: b bo ds pre s)
  case 0
  then show ?case by (simp add: generateAll_eq)
next
  case (Suc n)
  show ?case
  proof (cases "s \<in> set (genBody b bo ds p pre)")
    case False
    then have "s = pre" using Suc.prems by (simp add: generateAll_eq split: if_splits)
    then show ?thesis by simp
  next
    case True
    then obtain i m where i: "i < length ds" "ds ! i \<notin> set (take i ds)"
      and m: "m \<in> set (singleDieMoves b bo (ds ! i) p)"
      and s: "s \<in> set (generateAll (fst (applyMoveToBoard b bo m p)) (snd (applyMoveToBoard b bo m p))
                     (removeAt i ds) p (pre @ [m]))"
      unfolding in_genBody by blast
    have "n = length (removeAt i ds)" using Suc.hyps(2) i(1) by (simp add: removeAt_def)
    from Suc.hyps(1)[OF this s] obtain t where t: "s = (pre @ [m]) @ t"
      "legalSeq (fst (applyMoveToBoard b bo m p)) (snd (applyMoveToBoard b bo m p)) (removeAt i ds) p t"
      by blast
    have "legalSeq b bo ds p (m # t)"
      using i m t(2) removeAt_remove1[OF i] by (auto simp: case_prod_unfold intro!: bexI[of _ "ds ! i"])
    then show ?thesis using t(1) by auto
  qed
qed

lemma legal_generated:
  "legalSeq b bo ds p t \<Longrightarrow> \<exists>t'. pre @ t @ t' \<in> set (generateAll b bo ds p pre)"
proof (induction t arbitrary: b bo ds pre)
  case Nil
  obtain s where s: "s \<in> set (generateAll b bo ds p pre)"
    using generateAll_nonempty[of b bo ds p pre] by (cases "generateAll b bo ds p pre") auto
  then obtain u where "s = pre @ u" using generated_legal by blast
  then show ?case using s by auto
next
  case (Cons m ms)
  then obtain d where d: "d \<in> set ds" "m \<in> set (singleDieMoves b bo d p)"
    "legalSeq (fst (applyMoveToBoard b bo m p)) (snd (applyMoveToBoard b bo m p)) (remove1 d ds) p ms"
    by (auto simp: case_prod_unfold)
  obtain i where i: "i < length ds" "ds ! i = d" "d \<notin> set (take i ds)" "removeAt i ds = remove1 d ds"
    using first_index[OF d(1)] by blast
  obtain t' where "(pre @ [m]) @ ms @ t' \<in>
      set (generateAll (fst (applyMoveToBoard b bo m p)) (snd (applyMoveToBoard b bo m p))
             (remove1 d ds) p (pre @ [m]))"
    using Cons.IH[OF d(3)] by blast
  then have t': "pre @ (m # ms) @ t' \<in>
      set (generateAll (fst (applyMoveToBoard b bo m p)) (snd (applyMoveToBoard b bo m p))
             (removeAt i ds) p (pre @ [m]))"
    by (simp add: i(4))
  have "ds ! i \<notin> set (take i ds)" "m \<in> set (singleDieMoves b bo (ds ! i) p)"
    using i d(2) by simp_all
  then have "pre @ (m # ms) @ t' \<in> set (genBody b bo ds p pre)"
    unfolding in_genBody using i(1) t' by blast
  moreover have "ds \<noteq> []" using d(1) by auto
  ultimately have "pre @ (m # ms) @ t' \<in> set (generateAll b bo ds p pre)"
    by (auto simp: generateAll_eq)
  then show ?case by blast
qed

lemma fold_max_ge: "x \<in> set xs \<Longrightarrow> x \<le> fold max xs (a::nat)"
proof (induction xs arbitrary: a)
  case Nil
  then show ?case by simp
next
  case (Cons y ys)
  have mono: "\<And>zs c. c \<le> fold max zs (c::nat)"
  proof -
    fix zs show "\<And>c. c \<le> fold max zs (c::nat)"
    proof (induction zs)
      case Nil
      show ?case by simp
    next
      case (Cons z zs)
      have "max z c \<le> fold max zs (max z c)" by (rule Cons.IH)
      then show ?case by simp
    qed
  qed
  show ?case
  proof (cases "x = y")
    case True
    have "max y a \<le> fold max ys (max y a)" by (rule mono)
    then show ?thesis using True by simp
  next
    case False
    then have "x \<in> set ys" using Cons.prems by simp
    then show ?thesis using Cons.IH by simp
  qed
qed


lemma maxLen_ge: "s \<in> set all \<Longrightarrow> length s \<le> maxLenOf all"
  unfolding maxLenOf_def by (rule fold_max_ge) simp


lemma usesDie_lam: "(\<lambda>s. case s of m # _ \<Rightarrow> die m = h | [] \<Rightarrow> False) = usesDie h"
  by (rule ext) (simp add: usesDie_def)

lemma gls_unf:
  "getLegalMoveSequences b bo ds p =
     (let all = generateAll b bo ds p [] in
      if all = [] then [[]]
      else case ds of
             [d0, d1] \<Rightarrow>
               if maxLenOf all = 1 \<and> d0 \<noteq> d1 then
                 (if filter (usesDie (max d0 d1)) (bestOf all) \<noteq> []
                  then filter (usesDie (max d0 d1)) (bestOf all) else bestOf all)
               else bestOf all
           | _ \<Rightarrow> bestOf all)"
  unfolding getLegalMoveSequences_def Let_def usesDie_lam
    maxLenOf_def[symmetric] bestOf_def[symmetric] length_greater_0_conv length_0_conv
  by (rule refl)

lemma gls_two:
  "getLegalMoveSequences b bo [d0, d1] p =
     (if maxLenOf (generateAll b bo [d0, d1] p []) = 1 \<and> d0 \<noteq> d1
         \<and> filter (usesDie (max d0 d1)) (bestOf (generateAll b bo [d0, d1] p [])) \<noteq> []
      then filter (usesDie (max d0 d1)) (bestOf (generateAll b bo [d0, d1] p []))
      else bestOf (generateAll b bo [d0, d1] p []))"
  using generateAll_nonempty[of b bo "[d0, d1]" p "[]"]
  by (simp add: gls_unf Let_def del: filter_filter)

lemma gls_other:
  assumes "\<forall>d0 d1. ds \<noteq> [d0, d1]"
  shows "getLegalMoveSequences b bo ds p = bestOf (generateAll b bo ds p [])"
proof (cases ds)
  case Nil
  then show ?thesis using generateAll_nonempty[of b bo ds p "[]"]
    by (simp add: gls_unf Let_def)
next
  case (Cons a r)
  note c1 = this
  show ?thesis
  proof (cases r)
    case Nil
    then show ?thesis using c1 generateAll_nonempty[of b bo ds p "[]"]
      by (simp add: gls_unf Let_def)
  next
    case (Cons a2 r2)
    note c2 = this
    show ?thesis
    proof (cases r2)
      case Nil
      then show ?thesis using c1 c2 assms by simp
    next
      case (Cons a3 r3)
      then show ?thesis using c1 c2 generateAll_nonempty[of b bo ds p "[]"]
        by (simp add: gls_unf Let_def)
    qed
  qed
qed


lemma gls_subset:
  "set (getLegalMoveSequences b bo ds p) \<subseteq> set (bestOf (generateAll b bo ds p []))"
proof (cases "\<exists>d0 d1. ds = [d0, d1]")
  case True
  then obtain d0 d1 where "ds = [d0, d1]" by blast
  then show ?thesis by (auto simp: gls_two)
next
  case False
  then show ?thesis by (simp add: gls_other)
qed


lemma in_bestOf: "s \<in> set (bestOf all) \<longleftrightarrow> s \<in> set all \<and> length s = maxLenOf all"
  by (auto simp: bestOf_def)


lemma setValues_set: "set (setValues xs) = set xs"
proof -
  have "\<And>acc. set (fold (\<lambda>x acc. if x \<in> set acc then acc else acc @ [x]) xs acc) = set acc \<union> set xs"
  proof (induction xs)
    case Nil
    show ?case by simp
  next
    case (Cons x xs)
    show ?case by (simp add: Cons.IH) auto
  qed
  then show ?thesis by (simp add: setValues_def)
qed

lemma hasNoMovesLoop_iff:
  "hasNoMovesLoop b bo ds p \<longleftrightarrow> (\<forall>d \<in> set ds. singleDieMoves b bo d p = [])"
  by (induction ds) auto

lemma hasNoMoves_iff:
  "hasNoMoves b bo ds p \<longleftrightarrow> (\<forall>d \<in> set ds. singleDieMoves b bo d p = [])"
  by (simp add: hasNoMoves_def hasNoMovesLoop_iff setValues_set)

text \<open>
  Claim C4. \<open>hasNoMoves\<close> holds exactly when \<open>getLegalMoveSequences\<close> returns the
  single empty sequence (for every dice list, the empty one included).
\<close>

theorem forced_pass:
  "hasNoMoves b bo ds p \<longleftrightarrow> getLegalMoveSequences b bo ds p = [[]]"
proof
  assume h: "hasNoMoves b bo ds p"
  then have none: "\<forall>d \<in> set ds. singleDieMoves b bo d p = []" by (simp add: hasNoMoves_iff)
  have "genBody b bo ds p [] = []"
  proof (rule ccontr)
    assume "genBody b bo ds p [] \<noteq> []"
    then obtain s where "s \<in> set (genBody b bo ds p [])" by (cases "genBody b bo ds p []") auto
    then show False unfolding in_genBody using none by auto
  qed
  then have all: "generateAll b bo ds p [] = [[]]" by (simp add: generateAll_eq)
  show "getLegalMoveSequences b bo ds p = [[]]"
    by (simp add: getLegalMoveSequences_def all Let_def split: list.splits)
next
  assume r: "getLegalMoveSequences b bo ds p = [[]]"
  show "hasNoMoves b bo ds p"
  proof (rule ccontr)
    assume "\<not> hasNoMoves b bo ds p"
    then obtain d m where d: "d \<in> set ds" "m \<in> set (singleDieMoves b bo d p)"
      unfolding hasNoMoves_iff by (metis all_not_in_conv set_empty)
    then have "legalSeq b bo ds p [m]" by (auto simp: case_prod_unfold)
    then obtain t' where t': "[] @ [m] @ t' \<in> set (generateAll b bo ds p [])"
      using legal_generated by blast
    have "[] \<in> set (getLegalMoveSequences b bo ds p)" using r by simp
    then have "length ([]::move list) = maxLenOf (generateAll b bo ds p [])"
      using gls_subset in_bestOf by blast
    then show False using maxLen_ge[OF t'] by simp
  qed
qed

theorem forced_pass_witness:
  "hasNoMoves emptyBoard allOff [3, 1] White
   \<and> getLegalMoveSequences emptyBoard allOff [3, 1] White = [[]]
   \<and> \<not> hasNoMoves oneDieBoard oneDieOff [6, 2] White
   \<and> getLegalMoveSequences oneDieBoard oneDieOff [6, 2] White \<noteq> [[]]"
proof -
  have a: "hasNoMoves emptyBoard allOff [3, 1] White" by code_simp
  have b: "\<not> hasNoMoves oneDieBoard oneDieOff [6, 2] White" by code_simp
  show ?thesis
    using forced_pass[of emptyBoard allOff "[3, 1]" White]
      forced_pass[of oneDieBoard oneDieOff "[6, 2]" White] a b
    by simp
qed




end
